theory Spec2Isabelle
  imports Main "HOL-Library.AList"
begin

section \<open>The IR: shapes, instructions, computations, modules\<close>

text \<open>
  The pass \<^verbatim>\<open>AsyncCollectiveCreator::Run\<close> (xla/service/async_collective_creator.cc)
  rewrites synchronous collectives into start/done pairs. An \<^verbatim>\<open>HloInstruction*\<close> is an
  identity: it is modelled as a number, and a computation owns the instructions it maps
  these numbers to, in insertion order.
\<close>

type_synonym instr_id = nat
type_synonym comp_id = nat

datatype HloOpcode =
    kAllReduce | kAllGather | kCollectivePermute | kAllToAll
  | kAllReduceStart | kAllReduceDone
  | kAllGatherStart | kAllGatherDone
  | kCollectivePermuteStart | kCollectivePermuteDone
  | kAsyncStart | kAsyncDone
  | kCustomCall
  | kOther nat

datatype PrimitiveType = U32 | S32 | F32 | PRED

datatype Shape =
    ArrayShape PrimitiveType "nat list"
  | TupleShape "Shape list"
  | TokenShape

text \<open>Modelled from the spec: the \<^verbatim>\<open>ShapeUtil\<close> constructors (xla/shape_util.h) are not
  part of the source at hand. A shape is an array of an element type and dimensions, a
  tuple of shapes, or the token; layouts are left out, the pass never reads them.\<close>

definition MakeShape :: "PrimitiveType \<Rightarrow> nat list \<Rightarrow> Shape" where
  "MakeShape ty dims = ArrayShape ty dims"

definition MakeScalarShape :: "PrimitiveType \<Rightarrow> Shape" where
  "MakeScalarShape ty = ArrayShape ty []"

definition MakeTupleShape :: "Shape list \<Rightarrow> Shape" where
  "MakeTupleShape shapes = TupleShape shapes"

definition MakeTokenShape :: Shape where
  "MakeTokenShape = TokenShape"

record HloInstruction =
  opcode :: HloOpcode
  shape :: Shape
  operands :: "instr_id list"
  metadata :: string
  backend_config :: string
  disjoint_read_write_regions :: bool
  to_apply :: comp_id
  replica_groups :: "nat list list"
  constrain_layout :: bool
  channel_id :: "nat option"
  use_global_device_ids :: bool
  all_gather_dimension :: nat
  source_target_pairs :: "(nat \<times> nat) list"
  dynamic_slice_sizes_list :: "nat list list"
  custom_call_target :: string
  custom_call_has_side_effect :: bool
  control_predecessors :: "instr_id list"
  control_successors :: "instr_id list"

definition operand_count :: "HloInstruction \<Rightarrow> nat" where
  "operand_count ins = length (operands ins)"

text \<open>
  A computation: its instructions in insertion order, its root, and the supply of fresh
  identities (\<open>next_id\<close>: the address the next allocated instruction gets).
\<close>

record HloComputation =
  instructions :: "(instr_id \<times> HloInstruction) list"
  root_instruction :: instr_id
  next_id :: instr_id
  is_fusion :: bool
  execution_thread :: string

record HloModule =
  computations :: "(comp_id \<times> HloComputation) list"
  has_schedule :: bool
  sequences :: "(comp_id \<times> instr_id list) list"

definition lookup :: "HloComputation \<Rightarrow> instr_id \<Rightarrow> HloInstruction option" where
  "lookup c i = map_of (instructions c) i"

definition shape_of :: "HloComputation \<Rightarrow> instr_id \<Rightarrow> Shape option" where
  "shape_of c i = map_option shape (lookup c i)"

section \<open>Results: returned failures and fatal aborts\<close>

text \<open>
  \<open>StatusError\<close> is a non-OK \<^verbatim>\<open>Status\<close> that \<^verbatim>\<open>Run\<close> returns; \<open>StatusErrorReplacing\<close> is one
  returned through \<^verbatim>\<open>TF_RETURN_WITH_CONTEXT_IF_ERROR(..., "replacing ", ...)\<close>. The other
  three end the process: a failed \<^verbatim>\<open>CHECK_EQ\<close>, \<^verbatim>\<open>.value()\<close> on a failed \<^verbatim>\<open>StatusOr\<close>,
  and a read through a pointer or an index that names nothing (undefined in C++).
\<close>

datatype error =
    StatusError string
  | StatusErrorReplacing string instr_id
  | CheckFailed nat nat
  | BadStatusOrAccess string
  | InvalidAccess

fun is_fatal :: "error \<Rightarrow> bool" where
  "is_fatal (StatusError s) = False"
| "is_fatal (StatusErrorReplacing s i) = False"
| "is_fatal (CheckFailed a b) = True"
| "is_fatal (BadStatusOrAccess s) = True"
| "is_fatal InvalidAccess = True"

section \<open>Configuration and collaborators\<close>

text \<open>The members of \<^verbatim>\<open>AsyncCollectiveCreator\<close>: four conversion predicates and the
  split-tracking predicate.\<close>

record AsyncCollectiveCreator =
  convert_all_reduce :: "HloInstruction \<Rightarrow> bool"
  convert_all_gather :: "HloInstruction \<Rightarrow> bool"
  convert_collective_permute :: "HloInstruction \<Rightarrow> bool"
  convert_all_to_all :: "HloInstruction \<Rightarrow> bool"
  track_send_recv_separately :: "HloInstruction \<Rightarrow> bool"

text \<open>
  The collaborators whose results the pass only consumes are parameters: the shape
  inference for the four-operand permute, and whether the replacement primitive and the
  async-instruction constructor fail (\<open>Some\<close> the message) at a given call.
\<close>

record Collaborators =
  InferCollectivePermuteStartShape :: "Shape list \<Rightarrow> string + Shape"
  ReplaceInstruction_failure :: "HloComputation \<Rightarrow> instr_id \<Rightarrow> instr_id \<Rightarrow> string option"
  CreateAsyncInstructions_failure :: "HloComputation \<Rightarrow> instr_id \<Rightarrow> string option"

section \<open>Instruction factories and graph primitives\<close>

text \<open>Modelled from the spec: the \<^verbatim>\<open>HloInstruction::Create...\<close> factories
  (xla/hlo/ir/hlo_instruction.cc) are not part of the source at hand. A new instruction
  carries what the caller passes and nothing else: no metadata, no backend
  configuration, no frontend attribute, no control edge.\<close>

definition new_instruction :: "HloOpcode \<Rightarrow> Shape \<Rightarrow> instr_id list \<Rightarrow> HloInstruction" where
  "new_instruction opc shp ops =
     \<lparr> opcode = opc, shape = shp, operands = ops, metadata = [], backend_config = [],
       disjoint_read_write_regions = False, to_apply = 0, replica_groups = [],
       constrain_layout = False, channel_id = None, use_global_device_ids = False,
       all_gather_dimension = 0, source_target_pairs = [], dynamic_slice_sizes_list = [],
       custom_call_target = [], custom_call_has_side_effect = False,
       control_predecessors = [], control_successors = [] \<rparr>"

definition CreateAllReduceStart ::
  "Shape \<Rightarrow> instr_id list \<Rightarrow> comp_id \<Rightarrow> nat list list \<Rightarrow> bool \<Rightarrow> nat option \<Rightarrow> bool \<Rightarrow> HloInstruction" where
  "CreateAllReduceStart shp ops reduce_computation groups layout chan global_ids =
     (new_instruction kAllReduceStart shp ops)
       \<lparr> to_apply := reduce_computation, replica_groups := groups, constrain_layout := layout,
         channel_id := chan, use_global_device_ids := global_ids \<rparr>"

definition CreateAllGatherStart ::
  "Shape \<Rightarrow> instr_id list \<Rightarrow> nat \<Rightarrow> nat list list \<Rightarrow> bool \<Rightarrow> nat option \<Rightarrow> bool \<Rightarrow> HloInstruction" where
  "CreateAllGatherStart shp ops dim groups layout chan global_ids =
     (new_instruction kAllGatherStart shp ops)
       \<lparr> all_gather_dimension := dim, replica_groups := groups, constrain_layout := layout,
         channel_id := chan, use_global_device_ids := global_ids \<rparr>"

definition CreateCollectivePermuteStart ::
  "Shape \<Rightarrow> instr_id \<Rightarrow> (nat \<times> nat) list \<Rightarrow> nat option \<Rightarrow> HloInstruction" where
  "CreateCollectivePermuteStart shp operand pairs chan =
     (new_instruction kCollectivePermuteStart shp [operand])
       \<lparr> source_target_pairs := pairs, channel_id := chan \<rparr>"

definition CreateCollectivePermuteStart4 ::
  "Shape \<Rightarrow> instr_id \<Rightarrow> instr_id \<Rightarrow> instr_id \<Rightarrow> instr_id \<Rightarrow> (nat \<times> nat) list \<Rightarrow> nat list list
     \<Rightarrow> nat option \<Rightarrow> HloInstruction" where
  "CreateCollectivePermuteStart4 shp input output input_start output_start pairs slice_sizes chan =
     (new_instruction kCollectivePermuteStart shp [input, output, input_start, output_start])
       \<lparr> source_target_pairs := pairs, dynamic_slice_sizes_list := slice_sizes,
         channel_id := chan \<rparr>"

definition CreateUnary :: "Shape \<Rightarrow> HloOpcode \<Rightarrow> instr_id \<Rightarrow> HloInstruction" where
  "CreateUnary shp opc operand = new_instruction opc shp [operand]"

definition CreateCustomCall :: "Shape \<Rightarrow> instr_id list \<Rightarrow> string \<Rightarrow> HloInstruction" where
  "CreateCustomCall shp ops target =
     (new_instruction kCustomCall shp ops) \<lparr> custom_call_target := target \<rparr>"

text \<open>Modelled from the spec: \<^verbatim>\<open>HloComputation::AddInstruction\<close>. The instruction is
  inserted last, under a fresh identity, which is returned.\<close>

definition AddInstruction :: "HloComputation \<Rightarrow> HloInstruction \<Rightarrow> instr_id \<times> HloComputation" where
  "AddInstruction c ins =
     (next_id c,
      c \<lparr> instructions := instructions c @ [(next_id c, ins)], next_id := Suc (next_id c) \<rparr>)"

text \<open>Modelled from the spec: the setters \<^verbatim>\<open>set_metadata\<close>, \<^verbatim>\<open>CopyBackendConfigFrom\<close> and
  \<^verbatim>\<open>set_custom_call_has_side_effect\<close> of \<^verbatim>\<open>HloInstruction\<close> are not part of the source at
  hand. Each is a write through an instruction pointer: it changes one field of the
  instruction the pointer names and nothing else; on a pointer the computation does
  not own it changes nothing.\<close>

definition modify :: "HloComputation \<Rightarrow> instr_id \<Rightarrow> (HloInstruction \<Rightarrow> HloInstruction) \<Rightarrow> HloComputation" where
  "modify c i f =
     c \<lparr> instructions := map (\<lambda>(j, ins). if j = i then (j, f ins) else (j, ins)) (instructions c) \<rparr>"

definition set_metadata :: "HloComputation \<Rightarrow> instr_id \<Rightarrow> string \<Rightarrow> HloComputation" where
  "set_metadata c i md = modify c i (\<lambda>ins. ins \<lparr> metadata := md \<rparr>)"

definition CopyBackendConfigFrom :: "HloComputation \<Rightarrow> instr_id \<Rightarrow> HloInstruction \<Rightarrow> HloComputation" where
  "CopyBackendConfigFrom c i other = modify c i (\<lambda>ins. ins \<lparr> backend_config := backend_config other \<rparr>)"

text \<open>Modelled from the spec: \<^verbatim>\<open>HasDisjointReadWriteRegionsAttr\<close> and
  \<^verbatim>\<open>SetDisjointReadWriteRegionsAttr\<close> (xla/frontend_attributes.h) read and set the
  "disjoint read/write regions" attribute of an instruction.\<close>

definition HasDisjointReadWriteRegionsAttr :: "HloInstruction \<Rightarrow> bool" where
  "HasDisjointReadWriteRegionsAttr ins = disjoint_read_write_regions ins"

definition SetDisjointReadWriteRegionsAttr :: "HloComputation \<Rightarrow> instr_id \<Rightarrow> HloComputation" where
  "SetDisjointReadWriteRegionsAttr c i = modify c i (\<lambda>ins. ins \<lparr> disjoint_read_write_regions := True \<rparr>)"

definition set_custom_call_has_side_effect :: "HloComputation \<Rightarrow> instr_id \<Rightarrow> bool \<Rightarrow> HloComputation" where
  "set_custom_call_has_side_effect c i b = modify c i (\<lambda>ins. ins \<lparr> custom_call_has_side_effect := b \<rparr>)"

text \<open>Modelled from the spec: \<^verbatim>\<open>HloInstruction::AddControlDependencyTo\<close> adds an explicit
  ordering edge from one instruction to another. Its \<^verbatim>\<open>Status\<close> is kept: the edge needs
  both ends in the computation.\<close>

definition AddControlDependencyTo :: "HloComputation \<Rightarrow> instr_id \<Rightarrow> instr_id \<Rightarrow> error + HloComputation" where
  "AddControlDependencyTo c src dst =
     (if lookup c src = None \<or> lookup c dst = None
      then Inl (StatusError ''control dependency across computations'')
      else Inr (modify
             (modify c src (\<lambda>ins. ins \<lparr> control_successors := control_successors ins @ [dst] \<rparr>))
             dst (\<lambda>ins. ins \<lparr> control_predecessors := control_predecessors ins @ [src] \<rparr>)))"

text \<open>Modelled from the spec: \<^verbatim>\<open>HloComputation::ReplaceInstruction\<close>. Every user of the
  old instruction is rewired to the new one, the root follows, and the old instruction is
  detached and destroyed. When it fails is the collaborator's business.\<close>

definition replace_operand :: "instr_id \<Rightarrow> instr_id \<Rightarrow> HloInstruction \<Rightarrow> HloInstruction" where
  "replace_operand old new ins =
     ins \<lparr> operands := map (\<lambda>i. if i = old then new else i) (operands ins) \<rparr>"

definition ReplaceInstruction ::
  "Collaborators \<Rightarrow> HloComputation \<Rightarrow> instr_id \<Rightarrow> instr_id \<Rightarrow> error + HloComputation" where
  "ReplaceInstruction env c old new =
     (case ReplaceInstruction_failure env c old new of
        Some msg \<Rightarrow> Inl (StatusError msg)
      | None \<Rightarrow>
          Inr (c \<lparr> instructions :=
                     map (\<lambda>(i, ins). (i, replace_operand old new ins))
                       (filter (\<lambda>(i, ins). i \<noteq> old) (instructions c)),
                   root_instruction :=
                     (if root_instruction c = old then new else root_instruction c) \<rparr>))"

text \<open>Modelled from the spec: \<^verbatim>\<open>HloComputation::ReplaceWithNewInstruction\<close> adds the new
  instruction and replaces the old one by it.\<close>

definition ReplaceWithNewInstruction ::
  "Collaborators \<Rightarrow> HloComputation \<Rightarrow> instr_id \<Rightarrow> HloInstruction \<Rightarrow> (error + instr_id) \<times> HloComputation" where
  "ReplaceWithNewInstruction env c old new_ins =
     (let (new, c1) = AddInstruction c new_ins in
      case ReplaceInstruction env c1 old new of
        Inl e \<Rightarrow> (Inl e, c1)
      | Inr c2 \<Rightarrow> (Inr new, c2))"

text \<open>Modelled from the spec: \<^verbatim>\<open>HloComputation::CreateAsyncInstructions\<close>, the generic
  two-phase constructor. It creates an async start over the operands of the original
  (result: the operand shapes, the original result shape and the context shapes) with the
  original's metadata and backend configuration, an async done over the start with the
  original result shape, and replaces the original by the done, which it returns. It
  fails only if the underlying call fails.\<close>

definition CreateAsyncInstructions ::
  "Collaborators \<Rightarrow> HloComputation \<Rightarrow> instr_id \<Rightarrow> Shape list \<Rightarrow> (error + instr_id) \<times> HloComputation" where
  "CreateAsyncInstructions env c x context_shapes =
     (case lookup c x of
        None \<Rightarrow> (Inl InvalidAccess, c)
      | Some ins \<Rightarrow>
         (case CreateAsyncInstructions_failure env c x of
            Some msg \<Rightarrow> (Inl (StatusError msg), c)
          | None \<Rightarrow>
             (case those (map (shape_of c) (operands ins)) of
                None \<Rightarrow> (Inl InvalidAccess, c)
              | Some parameter_shapes \<Rightarrow>
                 (let (async_start, c1) = AddInstruction c
                        ((new_instruction kAsyncStart
                            (MakeTupleShape
                               ([MakeTupleShape parameter_shapes, shape ins] @ context_shapes))
                            (operands ins))
                          \<lparr> metadata := metadata ins, backend_config := backend_config ins \<rparr>);
                      (async_done, c2) = AddInstruction c1
                        (new_instruction kAsyncDone (shape ins) [async_start])
                  in case ReplaceInstruction env c2 x async_done of
                       Inl e \<Rightarrow> (Inl e, c2)
                     | Inr c3 \<Rightarrow> (Inr async_done, c3)))))"

text \<open>Modelled from the spec: \<^verbatim>\<open>HloModule::MakeNonfusionComputations\<close>. A computation is
  eligible when it is not a fusion computation and belongs to one of the execution
  threads; the empty set of threads makes every thread eligible.\<close>

definition MakeNonfusionComputations :: "HloModule \<Rightarrow> string set \<Rightarrow> comp_id list" where
  "MakeNonfusionComputations m execution_threads =
     map fst (filter (\<lambda>(k, c). \<not> is_fusion c \<and>
                        (execution_threads = {} \<or> execution_thread c \<in> execution_threads))
                (computations m))"

section \<open>The pass\<close>

subsection \<open>Candidate scan (lines 45-60)\<close>

definition is_supported_collective :: "AsyncCollectiveCreator \<Rightarrow> HloInstruction \<Rightarrow> bool" where
  "is_supported_collective cfg instruction =
     ((opcode instruction = kAllReduce \<and> convert_all_reduce cfg instruction) \<or>
      (opcode instruction = kAllGather \<and> convert_all_gather cfg instruction) \<or>
      (opcode instruction = kCollectivePermute \<and> convert_collective_permute cfg instruction) \<or>
      (opcode instruction = kAllToAll \<and> convert_all_to_all cfg instruction))"

definition supported_collectives :: "AsyncCollectiveCreator \<Rightarrow> HloComputation \<Rightarrow> instr_id list" where
  "supported_collectives cfg computation =
     map fst (filter (\<lambda>(i, instruction). is_supported_collective cfg instruction)
                (instructions computation))"

subsection \<open>Per-kind rewriting (lines 66-201)\<close>

record ReplacedAsync =
  start :: instr_id
  done_instr :: instr_id

text \<open>Each branch returns the computation as it stands when the branch ends, and either
  the failure or the pair \<^verbatim>\<open>{start, done}\<close> of the replacement.\<close>

definition rewrite_all_reduce ::
  "Collaborators \<Rightarrow> HloComputation \<Rightarrow> instr_id \<Rightarrow> HloInstruction \<Rightarrow> (error + ReplacedAsync) \<times> HloComputation" where
  "rewrite_all_reduce env computation x ar =
     (let (start_i, c1) = AddInstruction computation
            (CreateAllReduceStart (shape ar) (operands ar) (to_apply ar) (replica_groups ar)
               (constrain_layout ar) (channel_id ar) (use_global_device_ids ar));
          done_ins = CreateUnary (shape ar) kAllReduceDone start_i;
          c2 = set_metadata c1 start_i (metadata ar);
          c3 = CopyBackendConfigFrom c2 start_i ar
      in case ReplaceWithNewInstruction env c3 x done_ins of
           (Inl (StatusError msg), c4) \<Rightarrow> (Inl (StatusErrorReplacing msg x), c4)
         | (Inl e, c4) \<Rightarrow> (Inl e, c4)
         | (Inr done_i, c4) \<Rightarrow> (Inr \<lparr> start = start_i, done_instr = done_i \<rparr>, c4))"

definition rewrite_all_gather ::
  "Collaborators \<Rightarrow> HloComputation \<Rightarrow> instr_id \<Rightarrow> HloInstruction \<Rightarrow> (error + ReplacedAsync) \<times> HloComputation" where
  "rewrite_all_gather env computation x ag =
     (case those (map (shape_of computation) (operands ag)) of
        None \<Rightarrow> (Inl InvalidAccess, computation)
      | Some operand_shapes \<Rightarrow>
         (case (if operand_count ag > 1 then Some (MakeTupleShape operand_shapes)
                else (case operand_shapes of [] \<Rightarrow> None | s0 # rest \<Rightarrow> Some s0)) of
            None \<Rightarrow> (Inl InvalidAccess, computation)
          | Some input_shape \<Rightarrow>
             (let shp = MakeTupleShape [input_shape, shape ag];
                  (start_i, c1) = AddInstruction computation
                    (CreateAllGatherStart shp (operands ag) (all_gather_dimension ag)
                       (replica_groups ag) (constrain_layout ag) (channel_id ag)
                       (use_global_device_ids ag));
                  done_ins = CreateUnary (shape ag) kAllGatherDone start_i;
                  c2 = set_metadata c1 start_i (metadata ag);
                  c3 = CopyBackendConfigFrom c2 start_i ag
              in case ReplaceWithNewInstruction env c3 x done_ins of
                   (Inl (StatusError msg), c4) \<Rightarrow> (Inl (StatusErrorReplacing msg x), c4)
                 | (Inl e, c4) \<Rightarrow> (Inl e, c4)
                 | (Inr done_i, c4) \<Rightarrow> (Inr \<lparr> start = start_i, done_instr = done_i \<rparr>, c4))))"

text \<open>Lines 119-147: the start of a collective permute. \<^verbatim>\<open>cp->mutable_operand(0)\<close> is read
  first; with one operand the tuple shape is built directly; otherwise
  \<^verbatim>\<open>CHECK_EQ(cp->operand_count(), 4)\<close>, then the shape inference, whose result is taken
  with \<^verbatim>\<open>.value()\<close>, and only then the new instruction.\<close>

definition collective_permute_start ::
  "Collaborators \<Rightarrow> HloComputation \<Rightarrow> HloInstruction \<Rightarrow> (error + instr_id) \<times> HloComputation" where
  "collective_permute_start env computation cp =
     (case operands cp of
        [] \<Rightarrow> (Inl InvalidAccess, computation)
      | operand # rest \<Rightarrow>
         if operand_count cp = 1 then
           (case shape_of computation operand of
              None \<Rightarrow> (Inl InvalidAccess, computation)
            | Some operand_shape \<Rightarrow>
               (let (start_i, c1) = AddInstruction computation
                      (CreateCollectivePermuteStart
                         (MakeTupleShape [operand_shape, shape cp, MakeShape U32 [], MakeShape U32 []])
                         operand (source_target_pairs cp) (channel_id cp))
                in (Inr start_i, c1)))
         else if operand_count cp \<noteq> 4 then (Inl (CheckFailed (operand_count cp) 4), computation)
         else
           (case those (map (shape_of computation) (operands cp)) of
              None \<Rightarrow> (Inl InvalidAccess, computation)
            | Some operand_shapes \<Rightarrow>
               (case InferCollectivePermuteStartShape env operand_shapes of
                  Inl msg \<Rightarrow> (Inl (BadStatusOrAccess msg), computation)
                | Inr shp \<Rightarrow>
                   (let (start_i, c1) = AddInstruction computation
                          (CreateCollectivePermuteStart4 shp operand (operands cp ! 1)
                             (operands cp ! 2) (operands cp ! 3) (source_target_pairs cp)
                             (dynamic_slice_sizes_list cp) (channel_id cp));
                        c2 = (if HasDisjointReadWriteRegionsAttr cp
                              then SetDisjointReadWriteRegionsAttr c1 start_i else c1)
                    in (Inr start_i, c2)))))"

text \<open>Lines 150-178: the completion side, one done or the recv-done/send-done pair.\<close>

definition collective_permute_done ::
  "AsyncCollectiveCreator \<Rightarrow> HloComputation \<Rightarrow> HloInstruction \<Rightarrow> instr_id \<Rightarrow> (error + instr_id) \<times> HloComputation" where
  "collective_permute_done cfg computation cp start_i =
     (if \<not> track_send_recv_separately cfg cp then
        (let (done_i, c1) = AddInstruction computation
               (CreateUnary (shape cp) kCollectivePermuteDone start_i)
         in (Inr done_i, c1))
      else
        (let (cp_recv_done, c1) = AddInstruction computation
               (CreateCustomCall (shape cp) [start_i] ''$cp_recv_done'');
             (cp_send_done, c2) = AddInstruction c1
               (CreateCustomCall MakeTokenShape [start_i] ''$cp_send_done'')
         in case AddControlDependencyTo c2 cp_recv_done cp_send_done of
              Inl e \<Rightarrow> (Inl e, c2)
            | Inr c3 \<Rightarrow>
               (let c4 = set_custom_call_has_side_effect c3 cp_send_done True;
                    c5 = set_custom_call_has_side_effect c4 cp_recv_done True
                in (Inr cp_recv_done, c5))))"

definition rewrite_collective_permute ::
  "AsyncCollectiveCreator \<Rightarrow> Collaborators \<Rightarrow> HloComputation \<Rightarrow> instr_id \<Rightarrow> HloInstruction
     \<Rightarrow> (error + ReplacedAsync) \<times> HloComputation" where
  "rewrite_collective_permute cfg env computation x cp =
     (case collective_permute_start env computation cp of
        (Inl e, c1) \<Rightarrow> (Inl e, c1)
      | (Inr start_i, c1) \<Rightarrow>
         (let c2 = set_metadata c1 start_i (metadata cp);
              c3 = CopyBackendConfigFrom c2 start_i cp
          in case collective_permute_done cfg c3 cp start_i of
               (Inl e, c4) \<Rightarrow> (Inl e, c4)
             | (Inr done_i, c4) \<Rightarrow>
                (case ReplaceInstruction env c4 x done_i of
                   Inl e \<Rightarrow> (Inl e, c4)
                 | Inr c5 \<Rightarrow> (Inr \<lparr> start = start_i, done_instr = done_i \<rparr>, c5))))"

text \<open>Lines 188-199. \<^verbatim>\<open>async_done->mutable_operand(0)\<close> is the async start. The source
  reads it only when the schedule is to be updated; the loop below drops the pair
  otherwise.\<close>

definition rewrite_all_to_all ::
  "Collaborators \<Rightarrow> HloComputation \<Rightarrow> instr_id \<Rightarrow> (error + ReplacedAsync) \<times> HloComputation" where
  "rewrite_all_to_all env computation x =
     (let sync_shape = MakeScalarShape U32 in
      case CreateAsyncInstructions env computation x [sync_shape, sync_shape] of
        (Inl e, c1) \<Rightarrow> (Inl e, c1)
      | (Inr async_done, c1) \<Rightarrow>
         (case lookup c1 async_done of
            None \<Rightarrow> (Inl InvalidAccess, c1)
          | Some done_ins \<Rightarrow>
             (case operands done_ins of
                [] \<Rightarrow> (Inl InvalidAccess, c1)
              | async_start # rest \<Rightarrow>
                 (Inr \<lparr> start = async_start, done_instr = async_done \<rparr>, c1))))"

text \<open>One iteration of the loop over \<^verbatim>\<open>supported_collectives\<close>: the dispatch on the kind of
  the instruction the pointer names now. \<open>Inr None\<close> is the iteration in which no cast
  succeeds and nothing happens.\<close>

definition rewrite_collective ::
  "AsyncCollectiveCreator \<Rightarrow> Collaborators \<Rightarrow> HloComputation \<Rightarrow> instr_id
     \<Rightarrow> (error + ReplacedAsync option) \<times> HloComputation" where
  "rewrite_collective cfg env computation x =
     (case lookup computation x of
        None \<Rightarrow> (Inl InvalidAccess, computation)
      | Some instruction \<Rightarrow>
         (case (if opcode instruction = kAllReduce then
                  Some (rewrite_all_reduce env computation x instruction)
                else if opcode instruction = kAllGather then
                  Some (rewrite_all_gather env computation x instruction)
                else if opcode instruction = kCollectivePermute then
                  Some (rewrite_collective_permute cfg env computation x instruction)
                else if opcode instruction = kAllToAll then
                  Some (rewrite_all_to_all env computation x)
                else None) of
            None \<Rightarrow> (Inr None, computation)
          | Some (Inl e, c1) \<Rightarrow> (Inl e, c1)
          | Some (Inr pair, c1) \<Rightarrow> (Inr (Some pair), c1)))"

fun rewrite_loop ::
  "AsyncCollectiveCreator \<Rightarrow> Collaborators \<Rightarrow> bool \<Rightarrow> instr_id list \<Rightarrow> HloComputation
     \<Rightarrow> (instr_id \<rightharpoonup> ReplacedAsync) \<Rightarrow> bool
     \<Rightarrow> (error + (instr_id \<rightharpoonup> ReplacedAsync) \<times> bool) \<times> HloComputation" where
  "rewrite_loop cfg env should_update_schedule [] computation replaced_pairs changed =
     (Inr (replaced_pairs, changed), computation)"
| "rewrite_loop cfg env should_update_schedule (x # xs) computation replaced_pairs changed =
     (case rewrite_collective cfg env computation x of
        (Inl e, c1) \<Rightarrow> (Inl e, c1)
      | (Inr None, c1) \<Rightarrow>
          rewrite_loop cfg env should_update_schedule xs c1 replaced_pairs changed
      | (Inr (Some pair), c1) \<Rightarrow>
          rewrite_loop cfg env should_update_schedule xs c1
            (if should_update_schedule then replaced_pairs(x \<mapsto> pair) else replaced_pairs) True)"

subsection \<open>Schedule patcher (lines 202-217)\<close>

fun new_sequence :: "(instr_id \<rightharpoonup> ReplacedAsync) \<Rightarrow> instr_id list \<Rightarrow> instr_id list" where
  "new_sequence replaced_pairs [] = []"
| "new_sequence replaced_pairs (instr # rest) =
     (case replaced_pairs instr of
        Some pair \<Rightarrow> start pair # done_instr pair # new_sequence replaced_pairs rest
      | None \<Rightarrow> instr # new_sequence replaced_pairs rest)"

subsection \<open>The loop over the computations and \<^verbatim>\<open>Run\<close>\<close>

definition set_computation :: "HloModule \<Rightarrow> comp_id \<Rightarrow> HloComputation \<Rightarrow> HloModule" where
  "set_computation m k c = m \<lparr> computations := AList.update k c (computations m) \<rparr>"

definition is_computation_scheduled :: "HloModule \<Rightarrow> comp_id \<Rightarrow> bool" where
  "is_computation_scheduled m k = (map_of (sequences m) k \<noteq> None)"

definition set_sequence :: "HloModule \<Rightarrow> comp_id \<Rightarrow> instr_id list \<Rightarrow> HloModule" where
  "set_sequence m k s = m \<lparr> sequences := AList.update k s (sequences m) \<rparr>"

text \<open>The body of the loop over the computations (lines 43-217) for the computation
  \<open>k\<close>, with the flag \<open>changed\<close> so far. The schedule is looked at only after the scan
  found a candidate. A failure leaves the loop with the computation as rewritten so far
  and the schedule as it was.\<close>

definition process_computation ::
  "AsyncCollectiveCreator \<Rightarrow> Collaborators \<Rightarrow> HloModule \<Rightarrow> comp_id \<Rightarrow> bool \<Rightarrow> (error + bool) \<times> HloModule" where
  "process_computation cfg env m k changed =
     (case map_of (computations m) k of
        None \<Rightarrow> (Inl InvalidAccess, m)
      | Some computation \<Rightarrow>
         (let candidates = supported_collectives cfg computation in
          if candidates = [] then (Inr changed, m)
          else
            (let should_update_schedule = (has_schedule m \<and> is_computation_scheduled m k) in
             case rewrite_loop cfg env should_update_schedule candidates computation Map.empty changed of
               (Inl e, c1) \<Rightarrow> (Inl e, set_computation m k c1)
             | (Inr (replaced_pairs, changed1), c1) \<Rightarrow>
                (if should_update_schedule then
                   (case map_of (sequences m) k of
                      None \<Rightarrow> (Inl InvalidAccess, set_computation m k c1)
                    | Some sequence \<Rightarrow>
                       (Inr changed1,
                        set_sequence (set_computation m k c1) k (new_sequence replaced_pairs sequence)))
                 else (Inr changed1, set_computation m k c1)))))"

fun Run_loop ::
  "AsyncCollectiveCreator \<Rightarrow> Collaborators \<Rightarrow> comp_id list \<Rightarrow> HloModule \<Rightarrow> bool \<Rightarrow> (error + bool) \<times> HloModule" where
  "Run_loop cfg env [] m changed = (Inr changed, m)"
| "Run_loop cfg env (k # ks) m changed =
     (case process_computation cfg env m k changed of
        (Inl e, m1) \<Rightarrow> (Inl e, m1)
      | (Inr changed1, m1) \<Rightarrow> Run_loop cfg env ks m1 changed1)"

definition Run :: "AsyncCollectiveCreator \<Rightarrow> Collaborators \<Rightarrow> HloModule \<Rightarrow> string set \<Rightarrow> (error + bool) \<times> HloModule" where
  "Run cfg env m execution_threads =
     Run_loop cfg env (MakeNonfusionComputations m execution_threads) m False"

section \<open>Notions used to state the properties\<close>

text \<open>Identities are unique in a computation and below its supply of fresh ones.\<close>

definition wf_computation :: "HloComputation \<Rightarrow> bool" where
  "wf_computation c =
     (distinct (map fst (instructions c)) \<and> (\<forall>i \<in> set (map fst (instructions c)). i < next_id c))"

definition is_sync :: "HloOpcode \<Rightarrow> bool" where
  "is_sync k = (k = kAllReduce \<or> k = kAllGather \<or> k = kCollectivePermute \<or> k = kAllToAll)"

definition start_opcode :: "HloOpcode \<Rightarrow> HloOpcode" where
  "start_opcode k =
     (if k = kAllReduce then kAllReduceStart else if k = kAllGather then kAllGatherStart
      else if k = kCollectivePermute then kCollectivePermuteStart else kAsyncStart)"

definition done_opcode :: "HloOpcode \<Rightarrow> HloOpcode" where
  "done_opcode k =
     (if k = kAllReduce then kAllReduceDone else if k = kAllGather then kAllGatherDone
      else if k = kCollectivePermute then kCollectivePermuteDone else kAsyncDone)"

definition is_start_for :: "HloOpcode \<Rightarrow> HloInstruction \<Rightarrow> bool" where
  "is_start_for k ins = (opcode ins = start_opcode k)"

definition is_recv_done :: "HloInstruction \<Rightarrow> bool" where
  "is_recv_done ins = (opcode ins = kCustomCall \<and> custom_call_target ins = ''$cp_recv_done'')"

definition is_send_done :: "HloInstruction \<Rightarrow> bool" where
  "is_send_done ins = (opcode ins = kCustomCall \<and> custom_call_target ins = ''$cp_send_done'')"

definition is_done_for :: "HloOpcode \<Rightarrow> HloInstruction \<Rightarrow> bool" where
  "is_done_for k ins = (opcode ins = done_opcode k \<or> (k = kCollectivePermute \<and> is_recv_done ins))"

text \<open>The states the primitives lead to, named for the proofs.\<close>

definition rewired ::
  "instr_id \<Rightarrow> instr_id \<Rightarrow> (instr_id \<times> HloInstruction) list \<Rightarrow> (instr_id \<times> HloInstruction) list" where
  "rewired old new l =
     map (\<lambda>(i, ins). (i, replace_operand old new ins)) (filter (\<lambda>(i, ins). i \<noteq> old) l)"

definition added :: "HloComputation \<Rightarrow> HloInstruction \<Rightarrow> HloComputation" where
  "added c ins = c \<lparr> instructions := instructions c @ [(next_id c, ins)], next_id := Suc (next_id c) \<rparr>"

definition replaced :: "HloComputation \<Rightarrow> instr_id \<Rightarrow> instr_id \<Rightarrow> HloComputation" where
  "replaced c old new =
     c \<lparr> instructions := rewired old new (instructions c),
         root_instruction := (if root_instruction c = old then new else root_instruction c) \<rparr>"

definition cp_recv_done_instr :: "HloInstruction \<Rightarrow> instr_id \<Rightarrow> instr_id \<Rightarrow> HloInstruction" where
  "cp_recv_done_instr cp start_i send_i =
     (CreateCustomCall (shape cp) [start_i] ''$cp_recv_done'')
       \<lparr> custom_call_has_side_effect := True, control_successors := [send_i] \<rparr>"

definition cp_send_done_instr :: "instr_id \<Rightarrow> instr_id \<Rightarrow> HloInstruction" where
  "cp_send_done_instr start_i recv_i =
     (CreateCustomCall MakeTokenShape [start_i] ''$cp_send_done'')
       \<lparr> custom_call_has_side_effect := True, control_predecessors := [recv_i] \<rparr>"

text \<open>What a successful iteration leaves: the original replaced by the done, then the
  start and the done appended, and in split mode the send-done after them.\<close>

definition step_result ::
  "HloComputation \<Rightarrow> instr_id \<Rightarrow> HloInstruction \<Rightarrow> HloComputation \<Rightarrow> bool" where
  "step_result c x ins c' =
     (\<exists>S D. opcode S = start_opcode (opcode ins) \<and> custom_call_target S = [] \<and>
        metadata S = metadata ins \<and> backend_config S = backend_config ins \<and>
        operands D = [next_id c] \<and> shape D = shape ins \<and>
        ((opcode D = done_opcode (opcode ins) \<and> custom_call_target D = [] \<and>
          c' = added (added (replaced c x (Suc (next_id c))) S) D) \<or>
         (opcode ins = kCollectivePermute \<and> is_recv_done D \<and>
          c' = added (added (added (replaced c x (Suc (next_id c))) S) D)
                 (cp_send_done_instr (next_id c) (Suc (next_id c))))))"

subsection \<open>Example inputs\<close>

definition ex_instr :: "HloOpcode \<Rightarrow> instr_id list \<Rightarrow> HloInstruction" where
  "ex_instr opc ops =
     (new_instruction opc (ArrayShape F32 [8]) ops) \<lparr> metadata := ''op'', backend_config := ''cfg'' \<rparr>"

text \<open>Two parameters, an all-reduce of both, an all-gather, a collective permute and an
  all-to-all in a chain, and a root that uses the all-to-all and the all-reduce.\<close>

definition ex_computation :: HloComputation where
  "ex_computation = \<lparr> instructions =
      [(0, ex_instr (kOther 0) []), (1, ex_instr (kOther 0) []),
       (2, ex_instr kAllReduce [0, 1]), (3, ex_instr kAllGather [2]),
       (4, ex_instr kCollectivePermute [3]), (5, ex_instr kAllToAll [4]),
       (6, ex_instr (kOther 1) [5, 2])],
     root_instruction = 6, next_id = 7, is_fusion = False, execution_thread = ''main'' \<rparr>"

definition ex_module :: HloModule where
  "ex_module = \<lparr> computations = [(0, ex_computation)], has_schedule = True,
      sequences = [(0, [0, 1, 2, 3, 4, 5, 6])] \<rparr>"

definition accept_all :: AsyncCollectiveCreator where
  "accept_all = \<lparr> convert_all_reduce = (\<lambda>i. True), convert_all_gather = (\<lambda>i. True),
     convert_collective_permute = (\<lambda>i. True), convert_all_to_all = (\<lambda>i. True),
     track_send_recv_separately = (\<lambda>i. False) \<rparr>"

definition split_tracking :: AsyncCollectiveCreator where
  "split_tracking = accept_all \<lparr> track_send_recv_separately := (\<lambda>i. True) \<rparr>"

definition no_failure :: Collaborators where
  "no_failure = \<lparr> InferCollectivePermuteStartShape = (\<lambda>shapes. Inr (TupleShape shapes)),
     ReplaceInstruction_failure = (\<lambda>c old new. None),
     CreateAsyncInstructions_failure = (\<lambda>c x. None) \<rparr>"

definition failing_inference :: Collaborators where
  "failing_inference =
     no_failure \<lparr> InferCollectivePermuteStartShape := (\<lambda>shapes. Inl ''inconsistent operand shapes'') \<rparr>"

text \<open>A collective permute with one operand that carries the disjoint read/write regions
  attribute.\<close>

definition ex_permute1 :: HloComputation where
  "ex_permute1 = \<lparr> instructions =
      [(0, ex_instr (kOther 0) []),
       (1, (ex_instr kCollectivePermute [0]) \<lparr> disjoint_read_write_regions := True \<rparr>)],
     root_instruction = 1, next_id = 2, is_fusion = False, execution_thread = ''main'' \<rparr>"

text \<open>A collective permute with four operands, alone in its computation.\<close>

definition ex_permute4 :: HloComputation where
  "ex_permute4 = \<lparr> instructions =
      [(0, ex_instr (kOther 0) []), (1, ex_instr (kOther 0) []),
       (2, ex_instr (kOther 0) []), (3, ex_instr (kOther 0) []),
       (4, (ex_instr kCollectivePermute [0, 1, 2, 3]) \<lparr> dynamic_slice_sizes_list := [[4], [2, 2]] \<rparr>)],
     root_instruction = 4, next_id = 5, is_fusion = False, execution_thread = ''main'' \<rparr>"

definition ex_permute4_module :: HloModule where
  "ex_permute4_module = \<lparr> computations = [(0, ex_permute4)], has_schedule = True,
      sequences = [(0, [0, 1, 2, 3, 4])] \<rparr>"

text \<open>A collective permute with two operands.\<close>

definition ex_permute2 :: HloComputation where
  "ex_permute2 = \<lparr> instructions =
      [(0, ex_instr (kOther 0) []), (1, ex_instr (kOther 0) []),
       (2, ex_instr kCollectivePermute [0, 1])],
     root_instruction = 2, next_id = 3, is_fusion = False, execution_thread = ''main'' \<rparr>"

definition ex_replaced_pairs :: "instr_id \<rightharpoonup> ReplacedAsync" where
  "ex_replaced_pairs = [2 \<mapsto> \<lparr> start = 7, done_instr = 8 \<rparr>]"

subsection \<open>Notions for the loops and for the module\<close>

text \<open>The loop over the candidates keeps this: the computation is well formed, and the
  candidates still to come are distinct instructions of it with a synchronous kind.\<close>

definition loop_inv :: "HloComputation \<Rightarrow> instr_id list \<Rightarrow> bool" where
  "loop_inv c xs =
     (wf_computation c \<and> distinct xs \<and>
      (\<forall>x \<in> set xs. \<exists>ins. lookup c x = Some ins \<and> is_sync (opcode ins)))"

text \<open>Operands renamed, and only operands in \<open>X\<close>.\<close>

definition renamed :: "instr_id set \<Rightarrow> HloInstruction \<Rightarrow> HloInstruction \<Rightarrow> bool" where
  "renamed X ins ins' =
     (\<exists>\<rho>. (\<forall>i. i \<notin> X \<longrightarrow> \<rho> i = i) \<and> ins' = ins \<lparr> operands := map \<rho> (operands ins) \<rparr>)"

text \<open>The number of instructions of a computation with a property.\<close>

definition count_instr :: "(HloInstruction \<Rightarrow> bool) \<Rightarrow> HloComputation \<Rightarrow> nat" where
  "count_instr P c = length (filter (\<lambda>(i, ins). P ins) (instructions c))"

definition by_kind :: "(HloOpcode \<Rightarrow> string \<Rightarrow> bool) \<Rightarrow> HloInstruction \<Rightarrow> bool" where
  "by_kind K ins = K (opcode ins) (custom_call_target ins)"

definition balanced :: "(HloOpcode \<Rightarrow> string \<Rightarrow> bool) \<Rightarrow> bool" where
  "balanced K =
     ((if K kCustomCall ''$cp_recv_done'' then 1 else 0) + (if K kCustomCall ''$cp_send_done'' then 1 else 0) =
      (if K kCollectivePermuteDone [] then 1 else (0::nat)))"

definition sel :: "HloComputation \<Rightarrow> (HloInstruction \<Rightarrow> bool) \<Rightarrow> instr_id list \<Rightarrow> instr_id list" where
  "sel c P xs = filter (\<lambda>x. case lookup c x of Some ins \<Rightarrow> P ins | None \<Rightarrow> False) xs"

text \<open>The configured predicates accept every instruction of the four kinds that the
  computation, or the module, holds.\<close>

definition accepts_every_collective :: "AsyncCollectiveCreator \<Rightarrow> HloComputation \<Rightarrow> bool" where
  "accepts_every_collective cfg c =
     (\<forall>(i, ins) \<in> set (instructions c). is_sync (opcode ins) \<longrightarrow> is_supported_collective cfg ins)"

definition accepts_every_collective_in :: "AsyncCollectiveCreator \<Rightarrow> HloModule \<Rightarrow> bool" where
  "accepts_every_collective_in cfg m = (\<forall>(k, c) \<in> set (computations m). accepts_every_collective cfg c)"

text \<open>In the computation \<open>c'\<close>, the pair is a start for the original \<open>ins\<close>, with its
  metadata and backend configuration, and the done that consumes this start.\<close>

definition replaces :: "HloComputation \<Rightarrow> HloInstruction \<Rightarrow> ReplacedAsync \<Rightarrow> bool" where
  "replaces c' ins pair =
     (done_instr pair = Suc (start pair) \<and>
      (\<exists>S D. lookup c' (start pair) = Some S \<and> is_start_for (opcode ins) S \<and>
         metadata S = metadata ins \<and> backend_config S = backend_config ins \<and>
         lookup c' (done_instr pair) = Some D \<and> is_done_for (opcode ins) D \<and>
         operands D = [start pair]))"

definition wf_module :: "HloModule \<Rightarrow> bool" where
  "wf_module m =
     (distinct (map fst (computations m)) \<and> (\<forall>(k, c) \<in> set (computations m). wf_computation c))"

text \<open>The slot an instruction of the old sequence has in the new one: its own, moved by
  one for every replaced instruction before it.\<close>

definition new_slot :: "instr_id list \<Rightarrow> instr_id list \<Rightarrow> nat \<Rightarrow> nat" where
  "new_slot candidates sequence j =
     j + length (filter (\<lambda>i. i \<in> set candidates) (take j sequence))"

text \<open>Every collective permute with more than one operand has four: among the
  instructions \<open>xs\<close> of a computation, and among the candidates of the computations that
  Run processes.\<close>

definition permutes_have_four :: "HloComputation \<Rightarrow> instr_id list \<Rightarrow> bool" where
  "permutes_have_four c xs =
     (\<forall>x \<in> set xs. \<forall>cp. lookup c x = Some cp \<and> opcode cp = kCollectivePermute \<and>
          1 < operand_count cp \<longrightarrow> operand_count cp = 4)"

definition permute_candidates_have_four ::
  "AsyncCollectiveCreator \<Rightarrow> HloModule \<Rightarrow> string set \<Rightarrow> bool" where
  "permute_candidates_have_four cfg m execution_threads =
     (\<forall>k \<in> set (MakeNonfusionComputations m execution_threads). \<forall>c.
        map_of (computations m) k = Some c \<longrightarrow>
        (\<forall>(i, ins) \<in> set (instructions c).
           opcode ins = kCollectivePermute \<and> convert_collective_permute cfg ins \<and>
           1 < operand_count ins \<longrightarrow> operand_count ins = 4))"

text \<open>The operands of an instruction are instructions of the computation (operand
  references point into the same computation), and their shapes in order.\<close>

definition operands_in :: "HloComputation \<Rightarrow> HloInstruction \<Rightarrow> bool" where
  "operands_in c ins = list_all (\<lambda>i. lookup c i \<noteq> None) (operands ins)"

definition operand_shapes_of :: "HloComputation \<Rightarrow> HloInstruction \<Rightarrow> Shape list" where
  "operand_shapes_of c ins = List.map_filter (shape_of c) (operands ins)"

subsection \<open>More example inputs\<close>

text \<open>A computation without any collective, and a module of two computations.\<close>

definition ex_plain :: HloComputation where
  "ex_plain = \<lparr> instructions = [(0, ex_instr (kOther 0) []), (1, ex_instr (kOther 2) [0])],
     root_instruction = 1, next_id = 2, is_fusion = False, execution_thread = ''main'' \<rparr>"

definition ex_two_module :: HloModule where
  "ex_two_module = \<lparr> computations = [(0, ex_computation), (1, ex_plain)], has_schedule = True,
      sequences = [(0, [0, 1, 2, 3, 4, 5, 6]), (1, [0, 1])] \<rparr>"

text \<open>An all-reduce followed by a collective permute with four operands.\<close>

definition ex_reduce_permute4 :: HloComputation where
  "ex_reduce_permute4 = \<lparr> instructions =
      [(0, ex_instr (kOther 0) []), (1, ex_instr (kOther 0) []),
       (2, ex_instr (kOther 0) []), (3, ex_instr (kOther 0) []),
       (4, ex_instr kAllReduce [0]),
       (5, ex_instr kCollectivePermute [4, 1, 2, 3])],
     root_instruction = 5, next_id = 6, is_fusion = False, execution_thread = ''main'' \<rparr>"

definition ex_reduce_permute4_module :: HloModule where
  "ex_reduce_permute4_module = \<lparr> computations = [(0, ex_reduce_permute4)], has_schedule = False,
      sequences = [] \<rparr>"

section \<open>One iteration of the rewriting loop\<close>

lemma AddInstruction_eq: "AddInstruction c ins = (next_id c, added c ins)"
  by (simp add: AddInstruction_def added_def)

lemma ReplaceInstruction_eq:
  "ReplaceInstruction env c old new =
     (case ReplaceInstruction_failure env c old new of
        Some msg \<Rightarrow> Inl (StatusError msg) | None \<Rightarrow> Inr (replaced c old new))"
  by (simp add: ReplaceInstruction_def replaced_def rewired_def split: option.splits)

lemma instructions_added [simp]: "instructions (added c ins) = instructions c @ [(next_id c, ins)]"
  and next_id_added [simp]: "next_id (added c ins) = Suc (next_id c)"
  and root_added [simp]: "root_instruction (added c ins) = root_instruction c"
  and is_fusion_added [simp]: "is_fusion (added c ins) = is_fusion c"
  and thread_added [simp]: "execution_thread (added c ins) = execution_thread c"
  by (simp_all add: added_def)

lemma instructions_replaced [simp]: "instructions (replaced c old new) = rewired old new (instructions c)"
  and next_id_replaced [simp]: "next_id (replaced c old new) = next_id c"
  and root_replaced [simp]:
    "root_instruction (replaced c old new) = (if root_instruction c = old then new else root_instruction c)"
  and is_fusion_replaced [simp]: "is_fusion (replaced c old new) = is_fusion c"
  and thread_replaced [simp]: "execution_thread (replaced c old new) = execution_thread c"
  by (simp_all add: replaced_def)

lemma next_id_modify [simp]: "next_id (modify c i f) = next_id c"
  by (simp add: modify_def)

lemma modify_absent:
  "i \<notin> set (map fst l) \<Longrightarrow> map (\<lambda>(j, ins). if j = i then (j, f ins) else (j, ins)) l = l"
  by (induction l) auto

lemma modify_fresh: "wf_computation c \<Longrightarrow> next_id c \<le> i \<Longrightarrow> modify c i f = c"
proof -
  assume "wf_computation c" "next_id c \<le> i"
  then have "i \<notin> set (map fst (instructions c))"
    by (auto simp: wf_computation_def)
  then show ?thesis by (simp add: modify_def modify_absent)
qed

lemma modify_added:
  "modify (added c ins) i f = added (modify c i f) (if i = next_id c then f ins else ins)"
  by (simp add: modify_def added_def)

lemma replaced_added:
  "old \<noteq> next_id c \<Longrightarrow>
   replaced (added c ins) old new = added (replaced c old new) (replace_operand old new ins)"
  by (simp add: replaced_def added_def rewired_def)

lemma keys_rewired: "map fst (rewired old new l) = filter (\<lambda>i. i \<noteq> old) (map fst l)"
  by (induction l) (auto simp: rewired_def)

lemma wf_added: "wf_computation c \<Longrightarrow> wf_computation (added c ins)"
  by (auto simp: wf_computation_def less_Suc_eq)

lemma wf_replaced: "wf_computation c \<Longrightarrow> wf_computation (replaced c old new)"
  by (auto simp: wf_computation_def keys_rewired)

lemma lookup_fresh: "wf_computation c \<Longrightarrow> next_id c \<le> i \<Longrightarrow> lookup c i = None"
  by (auto simp: wf_computation_def lookup_def map_of_eq_None_iff)

lemma wf_lookup_less: "wf_computation c \<Longrightarrow> lookup c x = Some ins \<Longrightarrow> x < next_id c"
  using lookup_fresh [of c x] by (cases "x < next_id c") auto

lemma lookup_added:
  "wf_computation c \<Longrightarrow> lookup (added c ins) i = (if i = next_id c then Some ins else lookup c i)"
  using lookup_fresh [of c "next_id c"]
  by (auto simp: lookup_def map_add_def split: option.splits)

lemma map_of_rewired:
  "map_of (rewired old new l) i = (if i = old then None else map_option (replace_operand old new) (map_of l i))"
  by (induction l) (auto simp: rewired_def)

lemma lookup_replaced:
  "lookup (replaced c old new) i =
     (if i = old then None else map_option (replace_operand old new) (lookup c i))"
  by (simp add: lookup_def map_of_rewired)

lemmas step_defs = AddInstruction_eq ReplaceInstruction_eq set_metadata_def CopyBackendConfigFrom_def
  SetDisjointReadWriteRegionsAttr_def set_custom_call_has_side_effect_def
  ReplaceWithNewInstruction_def modify_added modify_fresh replaced_added
  wf_added lookup_added lookup_fresh

lemma rewrite_all_reduce_Inr:
  assumes wf: "wf_computation c" and x: "x < next_id c"
    and r: "rewrite_all_reduce env c x ar = (Inr p, c')"
  shows "p = \<lparr> start = next_id c, done_instr = Suc (next_id c) \<rparr> \<and>
         c' = added (added (replaced c x (Suc (next_id c)))
                (replace_operand x (Suc (next_id c))
                    ((CreateAllReduceStart (shape ar) (operands ar) (to_apply ar) (replica_groups ar)
                        (constrain_layout ar) (channel_id ar) (use_global_device_ids ar))
                      \<lparr> metadata := metadata ar, backend_config := backend_config ar \<rparr>)))
                (replace_operand x (Suc (next_id c)) (CreateUnary (shape ar) kAllReduceDone (next_id c)))"
  using r wf x
  by (auto simp: rewrite_all_reduce_def step_defs Let_def
      split: option.splits sum.splits error.splits prod.splits)

lemma rewrite_all_gather_Inr:
  assumes wf: "wf_computation c" and x: "x < next_id c"
    and r: "rewrite_all_gather env c x ag = (Inr p, c')"
  shows "\<exists>shp. p = \<lparr> start = next_id c, done_instr = Suc (next_id c) \<rparr> \<and>
         c' = added (added (replaced c x (Suc (next_id c)))
                (replace_operand x (Suc (next_id c))
                    ((CreateAllGatherStart shp (operands ag) (all_gather_dimension ag) (replica_groups ag)
                        (constrain_layout ag) (channel_id ag) (use_global_device_ids ag))
                      \<lparr> metadata := metadata ag, backend_config := backend_config ag \<rparr>)))
                (replace_operand x (Suc (next_id c)) (CreateUnary (shape ag) kAllGatherDone (next_id c)))"
  using r wf x
  by (auto simp: rewrite_all_gather_def step_defs Let_def
      split: option.splits sum.splits error.splits prod.splits if_splits list.splits)

lemma rewrite_all_to_all_Inr:
  assumes wf: "wf_computation c" and x: "lookup c x = Some ata"
    and r: "rewrite_all_to_all env c x = (Inr p, c')"
  shows "\<exists>shp. p = \<lparr> start = next_id c, done_instr = Suc (next_id c) \<rparr> \<and>
         c' = added (added (replaced c x (Suc (next_id c)))
                (replace_operand x (Suc (next_id c))
                    ((new_instruction kAsyncStart shp (operands ata))
                      \<lparr> metadata := metadata ata, backend_config := backend_config ata \<rparr>)))
                (replace_operand x (Suc (next_id c)) (new_instruction kAsyncDone (shape ata) [next_id c]))"
proof -
  have b: "x < next_id c" using wf x by (rule wf_lookup_less)
  show ?thesis
    using r wf x b
    by (auto simp: rewrite_all_to_all_def CreateAsyncInstructions_def step_defs Let_def
        lookup_replaced wf_replaced replace_operand_def new_instruction_def
      split: option.splits sum.splits error.splits prod.splits if_splits list.splits)
qed

lemma wf_modify: "wf_computation c \<Longrightarrow> wf_computation (modify c i f)"
proof -
  have "map fst (map (\<lambda>(j, ins). if j = i then (j, f ins) else (j, ins)) l) = map fst l" for l
    by (induction l) auto
  then have "map fst (instructions (modify c i f)) = map fst (instructions c)"
    by (simp add: modify_def)
  then show "wf_computation c \<Longrightarrow> wf_computation (modify c i f)"
    unfolding wf_computation_def by simp
qed

lemma list3_nth: "length l = 3 \<Longrightarrow> [l ! 0, l ! Suc 0, l ! 2] = l"
  by (cases l; cases "tl l"; cases "tl (tl l)") auto

lemma collective_permute_start_Inr:
  assumes wf: "wf_computation c"
    and r: "collective_permute_start env c cp = (Inr s, c1)"
  shows "\<exists>S. s = next_id c \<and> c1 = added c S \<and> opcode S = kCollectivePermuteStart \<and>
           custom_call_target S = [] \<and>
           (operand_count cp = 1 \<or> operand_count cp = 4) \<and>
           operands S = operands cp \<and>
           disjoint_read_write_regions S = (operand_count cp \<noteq> 1 \<and> disjoint_read_write_regions cp)"
  using r wf
  apply (cases "operands cp")
   apply (simp add: collective_permute_start_def)
  apply (auto simp: collective_permute_start_def step_defs Let_def operand_count_def
      HasDisjointReadWriteRegionsAttr_def  
      CreateCollectivePermuteStart_def CreateCollectivePermuteStart4_def new_instruction_def
      list3_nth
      split: option.splits sum.splits if_splits)
  done

lemma collective_permute_done_Inr:
  assumes wf: "wf_computation c" and s: "s < next_id c"
    and r: "collective_permute_done cfg c cp s = (Inr d, c1)"
  shows "d = next_id c \<and>
         c1 = (if track_send_recv_separately cfg cp
               then added (added c (cp_recv_done_instr cp s (Suc (next_id c))))
                      (cp_send_done_instr s (next_id c))
               else added c (CreateUnary (shape cp) kCollectivePermuteDone s))"
  using r wf s
  apply (auto simp: collective_permute_done_def step_defs Let_def AddControlDependencyTo_def
      cp_recv_done_instr_def cp_send_done_instr_def CreateCustomCall_def new_instruction_def
      split: option.splits sum.splits if_splits)
  done

lemma rewrite_collective_permute_Inr:
  assumes wf: "wf_computation c" and x: "x < next_id c"
    and r: "rewrite_collective_permute cfg env c x cp = (Inr p, c')"
  shows "\<exists>S. p = \<lparr> start = next_id c, done_instr = Suc (next_id c) \<rparr> \<and>
           opcode S = kCollectivePermuteStart \<and> custom_call_target S = [] \<and>
           metadata S = metadata cp \<and> backend_config S = backend_config cp \<and>
           (operand_count cp = 1 \<or> operand_count cp = 4) \<and>
           disjoint_read_write_regions S = (operand_count cp \<noteq> 1 \<and> disjoint_read_write_regions cp) \<and>
           c' = (if track_send_recv_separately cfg cp
                 then added (added (added (replaced c x (Suc (next_id c))) S)
                         (cp_recv_done_instr cp (next_id c) (Suc (Suc (next_id c)))))
                         (cp_send_done_instr (next_id c) (Suc (next_id c)))
                 else added (added (replaced c x (Suc (next_id c))) S)
                         (CreateUnary (shape cp) kCollectivePermuteDone (next_id c)))"
proof -
  obtain s c1 where s: "collective_permute_start env c cp = (Inr s, c1)"
    using r by (auto simp: rewrite_collective_permute_def split: prod.splits sum.splits)
  from collective_permute_start_Inr [OF wf s] obtain S where S:
    "s = next_id c" "c1 = added c S" "opcode S = kCollectivePermuteStart" "custom_call_target S = []"
    "operand_count cp = 1 \<or> operand_count cp = 4"
    "disjoint_read_write_regions S = (operand_count cp \<noteq> 1 \<and> disjoint_read_write_regions cp)"
    by blast
  let ?S = "replace_operand x (Suc (next_id c)) (S \<lparr> metadata := metadata cp, backend_config := backend_config cp \<rparr>)"
  let ?c3 = "added c (S \<lparr> metadata := metadata cp, backend_config := backend_config cp \<rparr>)"
  have c3: "CopyBackendConfigFrom (set_metadata c1 s (metadata cp)) s cp = ?c3"
    using wf S(1,2) by (simp add: step_defs)
  have wf3: "wf_computation ?c3" using wf by (rule wf_added)
  obtain d c4 where d: "collective_permute_done cfg ?c3 cp s = (Inr d, c4)"
    using r s c3 by (auto simp: rewrite_collective_permute_def Let_def split: prod.splits sum.splits)
  have "s < next_id ?c3" using S(1) by simp
  from collective_permute_done_Inr [OF wf3 this d]
  have d4: "d = Suc (next_id c)"
    "c4 = (if track_send_recv_separately cfg cp
           then added (added ?c3 (cp_recv_done_instr cp s (Suc (Suc (next_id c)))))
                  (cp_send_done_instr s (Suc (next_id c)))
           else added ?c3 (CreateUnary (shape cp) kCollectivePermuteDone s))"
    by simp_all
  have fin: "p = \<lparr> start = s, done_instr = d \<rparr> \<and> c' = replaced c4 x d"
    using r s c3 d by (auto simp: rewrite_collective_permute_def Let_def ReplaceInstruction_eq
        split: prod.splits sum.splits option.splits)
  have ne: "x \<noteq> next_id c" "x \<noteq> Suc (next_id c)" "x \<noteq> Suc (Suc (next_id c))"
    using x by auto
  have "c' = (if track_send_recv_separately cfg cp
                 then added (added (added (replaced c x (Suc (next_id c))) ?S)
                         (cp_recv_done_instr cp (next_id c) (Suc (Suc (next_id c)))))
                         (cp_send_done_instr (next_id c) (Suc (next_id c)))
                 else added (added (replaced c x (Suc (next_id c))) ?S)
                         (CreateUnary (shape cp) kCollectivePermuteDone (next_id c)))"
    using fin d4 ne S(1)
    by (simp add: replaced_added replace_operand_def cp_recv_done_instr_def cp_send_done_instr_def
        CreateCustomCall_def CreateUnary_def new_instruction_def)
  moreover have "opcode ?S = kCollectivePermuteStart" "custom_call_target ?S = []"
    "metadata ?S = metadata cp" "backend_config ?S = backend_config cp"
    "disjoint_read_write_regions ?S = (operand_count cp \<noteq> 1 \<and> disjoint_read_write_regions cp)"
    using S by (simp_all add: replace_operand_def)
  ultimately show ?thesis using fin S(1,5) d4(1) by blast
qed

lemma rewrite_collective_Inr:
  assumes wf: "wf_computation c" and x: "lookup c x = Some ins"
    and r: "rewrite_collective cfg env c x = (Inr r, c')"
  shows "(\<not> is_sync (opcode ins) \<and> r = None \<and> c' = c) \<or>
         (is_sync (opcode ins) \<and> r = Some \<lparr> start = next_id c, done_instr = Suc (next_id c) \<rparr> \<and>
          step_result c x ins c')"
proof -
  have lt: "x < next_id c" using wf x by (rule wf_lookup_less)
  have ne: "x \<noteq> next_id c" using lt by simp
  consider (ar) "opcode ins = kAllReduce" | (ag) "opcode ins = kAllGather"
    | (cp) "opcode ins = kCollectivePermute" | (ata) "opcode ins = kAllToAll"
    | (other) "\<not> is_sync (opcode ins)"
    by (auto simp: is_sync_def)
  then show ?thesis
  proof cases
    case ar
    then obtain p where p: "rewrite_all_reduce env c x ins = (Inr p, c')" "r = Some p"
      using r x by (auto simp: rewrite_collective_def split: prod.splits sum.splits)
    from rewrite_all_reduce_Inr [OF wf lt p(1)] ar p(2) ne show ?thesis
      unfolding step_result_def
      apply (intro disjI2 conjI)
        apply (simp add: is_sync_def)
       apply simp
      apply (intro exI conjI disjI1)
              prefer 9 apply (erule conjE) apply assumption
      by (simp_all add: replace_operand_def CreateAllReduceStart_def CreateUnary_def
          new_instruction_def start_opcode_def done_opcode_def)
  next
    case ag
    then obtain p where p: "rewrite_all_gather env c x ins = (Inr p, c')" "r = Some p"
      using r x by (auto simp: rewrite_collective_def split: prod.splits sum.splits)
    from rewrite_all_gather_Inr [OF wf lt p(1)] obtain shp where
      "p = \<lparr> start = next_id c, done_instr = Suc (next_id c) \<rparr> \<and>
         c' = added (added (replaced c x (Suc (next_id c)))
                (replace_operand x (Suc (next_id c))
                    ((CreateAllGatherStart shp (operands ins) (all_gather_dimension ins) (replica_groups ins)
                        (constrain_layout ins) (channel_id ins) (use_global_device_ids ins))
                      \<lparr> metadata := metadata ins, backend_config := backend_config ins \<rparr>)))
                (replace_operand x (Suc (next_id c)) (CreateUnary (shape ins) kAllGatherDone (next_id c)))"
      by blast
    with ag p(2) ne show ?thesis
      unfolding step_result_def
      apply (intro disjI2 conjI)
        apply (simp add: is_sync_def)
       apply simp
      apply (intro exI conjI disjI1)
              prefer 9 apply (erule conjE) apply assumption
      by (simp_all add: replace_operand_def CreateAllGatherStart_def CreateUnary_def
          new_instruction_def start_opcode_def done_opcode_def)
  next
    case cp
    then obtain p where p: "rewrite_collective_permute cfg env c x ins = (Inr p, c')" "r = Some p"
      using r x by (auto simp: rewrite_collective_def split: prod.splits sum.splits)
    from rewrite_collective_permute_Inr [OF wf lt p(1)] obtain S where S:
      "p = \<lparr> start = next_id c, done_instr = Suc (next_id c) \<rparr>"
      "opcode S = kCollectivePermuteStart" "custom_call_target S = []"
      "metadata S = metadata ins" "backend_config S = backend_config ins"
      "c' = (if track_send_recv_separately cfg ins
                 then added (added (added (replaced c x (Suc (next_id c))) S)
                         (cp_recv_done_instr ins (next_id c) (Suc (Suc (next_id c)))))
                         (cp_send_done_instr (next_id c) (Suc (next_id c)))
                 else added (added (replaced c x (Suc (next_id c))) S)
                         (CreateUnary (shape ins) kCollectivePermuteDone (next_id c)))"
      by blast
    show ?thesis
    proof (cases "track_send_recv_separately cfg ins")
      case True
      have "step_result c x ins c'"
        unfolding step_result_def
        apply (rule exI [of _ S])
        apply (rule exI [of _ "cp_recv_done_instr ins (next_id c) (Suc (Suc (next_id c)))"])
        using S True cp
        by (simp add: start_opcode_def cp_recv_done_instr_def CreateCustomCall_def
            new_instruction_def is_recv_done_def)
      then show ?thesis using cp S(1) p(2) by (simp add: is_sync_def)
    next
      case False
      have "step_result c x ins c'"
        unfolding step_result_def
        apply (rule exI [of _ S])
        apply (rule exI [of _ "CreateUnary (shape ins) kCollectivePermuteDone (next_id c)"])
        using S False cp
        by (simp add: start_opcode_def done_opcode_def CreateUnary_def new_instruction_def)
      then show ?thesis using cp S(1) p(2) by (simp add: is_sync_def)
    qed
  next
    case ata
    then obtain p where p: "rewrite_all_to_all env c x = (Inr p, c')" "r = Some p"
      using r x by (auto simp: rewrite_collective_def split: prod.splits sum.splits)
    from rewrite_all_to_all_Inr [OF wf x p(1)] obtain shp where
      "p = \<lparr> start = next_id c, done_instr = Suc (next_id c) \<rparr> \<and>
         c' = added (added (replaced c x (Suc (next_id c)))
                (replace_operand x (Suc (next_id c))
                    ((new_instruction kAsyncStart shp (operands ins))
                      \<lparr> metadata := metadata ins, backend_config := backend_config ins \<rparr>)))
                (replace_operand x (Suc (next_id c)) (new_instruction kAsyncDone (shape ins) [next_id c]))"
      by blast
    with ata p(2) ne show ?thesis
      unfolding step_result_def
      apply (intro disjI2 conjI)
        apply (simp add: is_sync_def)
       apply simp
      apply (intro exI conjI disjI1)
              prefer 9 apply (erule conjE) apply assumption
      by (simp_all add: replace_operand_def new_instruction_def start_opcode_def done_opcode_def)
  next
    case other
    then show ?thesis using r x
      by (auto simp: rewrite_collective_def is_sync_def split: prod.splits sum.splits)
  qed
qed

lemma wf_added2: "wf_computation c \<Longrightarrow> wf_computation (added (added (replaced c x d) S) D)"
  by (intro wf_added wf_replaced)

lemma wf_added3: "wf_computation c \<Longrightarrow> wf_computation (added (added (added (replaced c x d) S) D) E)"
  by (intro wf_added wf_replaced)

lemma lookup_added2:
  "wf_computation c \<Longrightarrow>
   lookup (added (added (replaced c x d) S) D) i =
     (if i = Suc (next_id c) then Some D else if i = next_id c then Some S
      else if i = x then None else map_option (replace_operand x d) (lookup c i))"
  by (simp add: lookup_added wf_added wf_replaced lookup_replaced)

lemma lookup_added3:
  "wf_computation c \<Longrightarrow>
   lookup (added (added (added (replaced c x d) S) D) E) i =
     (if i = Suc (Suc (next_id c)) then Some E
      else if i = Suc (next_id c) then Some D else if i = next_id c then Some S
      else if i = x then None else map_option (replace_operand x d) (lookup c i))"
  by (simp add: lookup_added wf_added wf_replaced lookup_replaced)

lemma step_result_wf: "wf_computation c \<Longrightarrow> step_result c x ins c' \<Longrightarrow> wf_computation c'"
  unfolding step_result_def by (auto intro: wf_added2 wf_added3)

lemma step_result_next_id:
  "step_result c x ins c' \<Longrightarrow> Suc (Suc (next_id c)) \<le> next_id c'"
  unfolding step_result_def by auto

lemma step_result_lookup_old:
  "wf_computation c \<Longrightarrow> step_result c x ins c' \<Longrightarrow> i < next_id c \<Longrightarrow>
   lookup c' i = (if i = x then None else map_option (replace_operand x (Suc (next_id c))) (lookup c i))"
  unfolding step_result_def by (auto simp: lookup_added2 lookup_added3)

lemma step_result_lookup_start:
  "wf_computation c \<Longrightarrow> step_result c x ins c' \<Longrightarrow>
   \<exists>S. lookup c' (next_id c) = Some S \<and> opcode S = start_opcode (opcode ins) \<and>
       custom_call_target S = [] \<and>
       metadata S = metadata ins \<and> backend_config S = backend_config ins"
  unfolding step_result_def by (auto simp: lookup_added2 lookup_added3)

lemma step_result_lookup_done:
  "wf_computation c \<Longrightarrow> step_result c x ins c' \<Longrightarrow>
   \<exists>D. lookup c' (Suc (next_id c)) = Some D \<and> is_done_for (opcode ins) D \<and>
       operands D = [next_id c] \<and> shape D = shape ins"
  unfolding step_result_def by (auto simp: lookup_added2 lookup_added3 is_done_for_def)

lemma rewrite_collective_cp:
  "lookup c x = Some cp \<Longrightarrow> opcode cp = kCollectivePermute \<Longrightarrow>
   rewrite_collective cfg env c x =
     (case rewrite_collective_permute cfg env c x cp of
        (Inl e, c1) \<Rightarrow> (Inl e, c1) | (Inr pair, c1) \<Rightarrow> (Inr (Some pair), c1))"
  by (simp add: rewrite_collective_def split: prod.splits sum.splits)

text \<open>When the reads of a branch succeed.\<close>

lemma those_map_filter:
  "list_all (\<lambda>i. f i \<noteq> None) l \<Longrightarrow> those (map f l) = Some (List.map_filter f l)"
  by (induction l) (auto simp: List.map_filter_simps)

lemma those_operand_shapes:
  "operands_in c ins \<Longrightarrow> those (map (shape_of c) (operands ins)) = Some (operand_shapes_of c ins)"
  unfolding operands_in_def operand_shapes_of_def
  by (rule those_map_filter) (simp add: shape_of_def list_all_iff)

lemma length_operand_shapes:
  "operands_in c ins \<Longrightarrow> length (operand_shapes_of c ins) = length (operands ins)"
proof -
  have "list_all (\<lambda>i. f i \<noteq> None) l \<Longrightarrow> length (List.map_filter f l) = length l" for f :: "nat \<Rightarrow> Shape option" and l
    by (induction l) (auto simp: List.map_filter_simps)
  then show "operands_in c ins \<Longrightarrow> length (operand_shapes_of c ins) = length (operands ins)"
    unfolding operands_in_def operand_shapes_of_def by (simp add: shape_of_def list_all_iff)
qed

lemma collective_permute_start_succeeds:
  assumes "wf_computation c" and "operands_in c cp"
    and "operand_count cp = 1 \<or>
         (operand_count cp = 4 \<and> (\<exists>shp. InferCollectivePermuteStartShape env (operand_shapes_of c cp) = Inr shp))"
  shows "\<exists>c1. collective_permute_start env c cp = (Inr (next_id c), c1) \<and> wf_computation c1 \<and>
           next_id c1 = Suc (next_id c)"
proof (cases "operands cp")
  case Nil
  then show ?thesis using assms(3) by (simp add: operand_count_def)
next
  case (Cons operand rest)
  from assms(2) Cons have "lookup c operand \<noteq> None"
    by (simp add: operands_in_def)
  then obtain os where oi: "shape_of c operand = Some os"
    by (auto simp: shape_of_def)
  from assms(3) show ?thesis
  proof
    assume "operand_count cp = 1"
    then show ?thesis using Cons oi assms(1)
      by (simp add: collective_permute_start_def AddInstruction_eq wf_added)
  next
    assume a: "operand_count cp = 4 \<and> (\<exists>shp. InferCollectivePermuteStartShape env (operand_shapes_of c cp) = Inr shp)"
    then obtain shp where shp: "InferCollectivePermuteStartShape env (operand_shapes_of c cp) = Inr shp"
      by blast
    have th: "those (shape_of c operand # map (shape_of c) rest) = Some (operand_shapes_of c cp)"
      using those_operand_shapes [OF assms(2)] Cons by (simp del: those.simps)
    show ?thesis using Cons a shp assms(1)
      unfolding collective_permute_start_def
      by (simp add: th AddInstruction_eq wf_added wf_modify SetDisjointReadWriteRegionsAttr_def
          del: those.simps)
  qed
qed

lemma collective_permute_done_succeeds:
  assumes "wf_computation c"
  shows "\<exists>d c1. collective_permute_done cfg c cp s = (Inr d, c1)"
  using assms
  by (simp add: collective_permute_done_def AddInstruction_eq AddControlDependencyTo_def
      Let_def lookup_added wf_added)

lemma update_same: "map_of al k = Some v \<Longrightarrow> AList.update k v al = al"
  by (induction al) (auto split: if_splits)

lemma set_computation_same: "map_of (computations m) k = Some c \<Longrightarrow> set_computation m k c = m"
  by (simp add: set_computation_def update_same)

lemma check_eq_operand_count:
  assumes x: "lookup c x = Some cp" and cp: "opcode cp = kCollectivePermute"
    and n1: "operand_count cp \<noteq> 1" and n4: "operand_count cp \<noteq> 4"
  shows "\<exists>e. rewrite_collective cfg env c x = (Inl e, c) \<and> is_fatal e \<and>
             (0 < operand_count cp \<longrightarrow> e = CheckFailed (operand_count cp) 4)"
proof (cases "operands cp")
  case Nil
  then have "collective_permute_start env c cp = (Inl InvalidAccess, c)"
    by (simp add: collective_permute_start_def)
  then show ?thesis using Nil
    by (simp add: rewrite_collective_cp [OF x cp] rewrite_collective_permute_def operand_count_def)
next
  case (Cons a list)
  then have "collective_permute_start env c cp = (Inl (CheckFailed (operand_count cp) 4), c)"
    using n1 n4 by (simp add: collective_permute_start_def)
  then show ?thesis
    by (simp add: rewrite_collective_cp [OF x cp] rewrite_collective_permute_def)
qed

lemma length_new_sequence:
  "length (new_sequence rp seq) = length seq + length (filter (\<lambda>i. rp i \<noteq> None) seq)"
  by (induction seq) (auto split: option.splits)

lemma replaced_slots_card:
  assumes "distinct seq" and "dom rp \<subseteq> set seq"
  shows "length (filter (\<lambda>i. rp i \<noteq> None) seq) = card (dom rp)"
proof -
  have "set (filter (\<lambda>i. rp i \<noteq> None) seq) = dom rp"
    using assms(2) by (auto simp: dom_def)
  moreover have "distinct (filter (\<lambda>i. rp i \<noteq> None) seq)"
    using assms(1) by simp
  ultimately show ?thesis by (metis distinct_card)
qed

lemma untouched_order:
  assumes "\<forall>i p. rp i = Some p \<longrightarrow> start p \<notin> U \<and> done_instr p \<notin> U"
  shows "filter (\<lambda>i. i \<in> U \<and> rp i = None) (new_sequence rp seq) = filter (\<lambda>i. i \<in> U \<and> rp i = None) seq"
  using assms by (induction seq) (auto split: option.splits)

section \<open>The loop over the candidates of a computation\<close>

lemma renamed_refl: "renamed X ins ins"
  unfolding renamed_def by (rule exI [of _ id]) simp

lemma renamed_replace_operand: "x \<in> X \<Longrightarrow> renamed X ins (replace_operand x d ins)"
  unfolding renamed_def replace_operand_def
  by (rule exI [of _ "\<lambda>i. if i = x then d else i"]) auto

lemma renamed_trans:
  assumes "renamed X a b" and "renamed Y b c" and "X \<subseteq> Z" and "Y \<subseteq> Z"
  shows "renamed Z a c"
proof -
  from assms(1) obtain r1 where r1: "\<forall>i. i \<notin> X \<longrightarrow> r1 i = i" "b = a \<lparr> operands := map r1 (operands a) \<rparr>"
    unfolding renamed_def by blast
  from assms(2) obtain r2 where r2: "\<forall>i. i \<notin> Y \<longrightarrow> r2 i = i" "c = b \<lparr> operands := map r2 (operands b) \<rparr>"
    unfolding renamed_def by blast
  have "(r2 \<circ> r1) i = i" if "i \<notin> Z" for i
  proof -
    have "i \<notin> X" "i \<notin> Y" using that assms(3,4) by auto
    then show ?thesis using r1(1) r2(1) by simp
  qed
  moreover have "c = a \<lparr> operands := map (r2 \<circ> r1) (operands a) \<rparr>"
    using r1(2) r2(2) by simp
  ultimately show ?thesis unfolding renamed_def by blast
qed

lemma renamed_opcode:
  "renamed X a b \<Longrightarrow> opcode b = opcode a \<and> custom_call_target b = custom_call_target a \<and>
     operand_count b = operand_count a \<and> metadata b = metadata a \<and> backend_config b = backend_config a"
  unfolding renamed_def operand_count_def by auto

lemma renamed_operands:
  "renamed X a b \<Longrightarrow> set (operands a) \<inter> X = {} \<Longrightarrow> operands b = operands a"
proof -
  assume "renamed X a b" and d: "set (operands a) \<inter> X = {}"
  then obtain r where r: "\<forall>i. i \<notin> X \<longrightarrow> r i = i" "b = a \<lparr> operands := map r (operands a) \<rparr>"
    unfolding renamed_def by blast
  have "map r (operands a) = operands a"
  proof (rule map_idI)
    fix i assume "i \<in> set (operands a)"
    then have "i \<notin> X" using d by auto
    then show "r i = i" using r(1) by simp
  qed
  then show ?thesis using r(2) by simp
qed

lemma candidates_inv:
  assumes "wf_computation c"
  shows "loop_inv c (supported_collectives cfg c)"
proof -
  have d: "distinct (map fst (instructions c))" using assms by (simp add: wf_computation_def)
  have "distinct (map fst (filter (\<lambda>(i, instruction). is_supported_collective cfg instruction) (instructions c)))"
    using d by (rule distinct_map_filter)
  moreover have "\<exists>ins. lookup c x = Some ins \<and> is_sync (opcode ins)"
    if "x \<in> set (supported_collectives cfg c)" for x
  proof -
    from that obtain ins where "(x, ins) \<in> set (instructions c)" "is_supported_collective cfg ins"
      by (auto simp: supported_collectives_def)
    then show ?thesis using d
      by (auto simp: lookup_def is_supported_collective_def is_sync_def)
  qed
  ultimately show ?thesis using assms by (simp add: loop_inv_def supported_collectives_def)
qed

lemma loop_step1:
  assumes inv: "loop_inv c (x # xs)"
    and step: "rewrite_collective cfg env c x = (Inr r, c1)"
  shows "\<exists>ins. lookup c x = Some ins \<and> is_sync (opcode ins) \<and> step_result c x ins c1 \<and>
           r = Some \<lparr> start = next_id c, done_instr = Suc (next_id c) \<rparr> \<and> loop_inv c1 xs"
proof -
  from inv obtain ins where ins: "lookup c x = Some ins" "is_sync (opcode ins)"
    and wf: "wf_computation c" and dist: "distinct (x # xs)"
    by (auto simp: loop_inv_def)
  from rewrite_collective_Inr [OF wf ins(1) step] ins(2)
  have r: "r = Some \<lparr> start = next_id c, done_instr = Suc (next_id c) \<rparr>" and sr: "step_result c x ins c1"
    by auto
  have wf1: "wf_computation c1" using wf sr by (rule step_result_wf)
  have "\<exists>ins'. lookup c1 y = Some ins' \<and> is_sync (opcode ins')" if "y \<in> set xs" for y
  proof -
    from that inv obtain iy where iy: "lookup c y = Some iy" "is_sync (opcode iy)"
      by (auto simp: loop_inv_def)
    have "y < next_id c" using wf iy(1) by (rule wf_lookup_less)
    moreover have "y \<noteq> x" using that dist by auto
    ultimately have "lookup c1 y = Some (replace_operand x (Suc (next_id c)) iy)"
      using step_result_lookup_old [OF wf sr] iy(1) by simp
    then show ?thesis using iy(2) by (simp add: replace_operand_def)
  qed
  then have inv1: "loop_inv c1 xs" using wf1 dist by (simp add: loop_inv_def)
  with ins sr r show ?thesis by blast
qed

lemma loop_step:
  assumes inv: "loop_inv c (x # xs)"
    and run: "rewrite_loop cfg env sus (x # xs) c rp ch = (Inr res, c')"
  obtains ins c1 where "lookup c x = Some ins" "is_sync (opcode ins)" "step_result c x ins c1"
    "rewrite_collective cfg env c x = (Inr (Some \<lparr> start = next_id c, done_instr = Suc (next_id c) \<rparr>), c1)"
    "loop_inv c1 xs"
    "rewrite_loop cfg env sus xs c1
       (if sus then rp(x \<mapsto> \<lparr> start = next_id c, done_instr = Suc (next_id c) \<rparr>) else rp) True = (Inr res, c')"
proof -
  obtain r c1 where step: "rewrite_collective cfg env c x = (Inr r, c1)"
    using run by (auto split: prod.splits sum.splits)
  from loop_step1 [OF inv step] obtain ins where a: "lookup c x = Some ins" "is_sync (opcode ins)"
    "step_result c x ins c1" "r = Some \<lparr> start = next_id c, done_instr = Suc (next_id c) \<rparr>"
    "loop_inv c1 xs"
    by blast
  have "rewrite_loop cfg env sus xs c1
       (if sus then rp(x \<mapsto> \<lparr> start = next_id c, done_instr = Suc (next_id c) \<rparr>) else rp) True = (Inr res, c')"
    using run step a(4) by simp
  with a step show ?thesis using that by blast
qed

lemma step_result_frame:
  "step_result c x ins c' \<Longrightarrow> is_fusion c' = is_fusion c \<and> execution_thread c' = execution_thread c"
  unfolding step_result_def by auto

lemma step_result_lookup_new:
  assumes wf: "wf_computation c" and sr: "step_result c x ins c'" and i: "next_id c \<le> i"
    and l: "lookup c' i = Some ins'"
  shows "\<not> is_sync (opcode ins')"
proof -
  have old: "lookup c i = None" using wf i by (rule lookup_fresh)
  have nx: "i \<noteq> x \<longrightarrow> map_option (replace_operand x (Suc (next_id c))) (lookup c i) = None"
    using old by simp
  from sr l wf old show ?thesis
    unfolding step_result_def
    by (auto simp: lookup_added2 lookup_added3 start_opcode_def done_opcode_def is_sync_def
        is_recv_done_def cp_send_done_instr_def CreateCustomCall_def new_instruction_def
        split: if_splits)
qed

lemma loop_inv_less: "loop_inv c xs \<Longrightarrow> x \<in> set xs \<Longrightarrow> x < next_id c"
  unfolding loop_inv_def by (auto intro: wf_lookup_less)

lemma loop_wf:
  "loop_inv c xs \<Longrightarrow> rewrite_loop cfg env sus xs c rp ch = (Inr res, c') \<Longrightarrow> wf_computation c'"
proof (induction xs arbitrary: c rp ch)
  case Nil
  then show ?case by (simp add: loop_inv_def)
next
  case (Cons x xs)
  from Cons.prems show ?case
    by (rule loop_step) (rule Cons.IH)
qed

lemma loop_next_id:
  "loop_inv c xs \<Longrightarrow> rewrite_loop cfg env sus xs c rp ch = (Inr res, c') \<Longrightarrow> next_id c \<le> next_id c'"
proof (induction xs arbitrary: c rp ch)
  case Nil
  then show ?case by simp
next
  case (Cons x xs)
  from Cons.prems show ?case
  proof (rule loop_step)
    fix ins c1
    assume "step_result c x ins c1" "loop_inv c1 xs"
      and "rewrite_loop cfg env sus xs c1
        (if sus then rp(x \<mapsto> \<lparr>start = next_id c, done_instr = Suc (next_id c)\<rparr>) else rp) True = (Inr res, c')"
    then show ?thesis using Cons.IH step_result_next_id [of c x ins c1] by fastforce
  qed
qed

lemma loop_frame:
  "loop_inv c xs \<Longrightarrow> rewrite_loop cfg env sus xs c rp ch = (Inr res, c') \<Longrightarrow>
   is_fusion c' = is_fusion c \<and> execution_thread c' = execution_thread c"
proof (induction xs arbitrary: c rp ch)
  case Nil
  then show ?case by simp
next
  case (Cons x xs)
  from Cons.prems show ?case
  proof (rule loop_step)
    fix ins c1
    assume "step_result c x ins c1" "loop_inv c1 xs"
      and "rewrite_loop cfg env sus xs c1
        (if sus then rp(x \<mapsto> \<lparr>start = next_id c, done_instr = Suc (next_id c)\<rparr>) else rp) True = (Inr res, c')"
    then show ?thesis using Cons.IH step_result_frame [of c x ins c1] by fastforce
  qed
qed

lemma loop_changed:
  "loop_inv c xs \<Longrightarrow> rewrite_loop cfg env sus xs c rp ch = (Inr (rp', ch'), c') \<Longrightarrow>
   ch' = (ch \<or> xs \<noteq> [])"
proof (induction xs arbitrary: c rp ch)
  case Nil
  then show ?case by simp
next
  case (Cons x xs)
  from Cons.prems show ?case
  proof (rule loop_step)
    fix ins c1
    assume "loop_inv c1 xs"
      and "rewrite_loop cfg env sus xs c1
        (if sus then rp(x \<mapsto> \<lparr>start = next_id c, done_instr = Suc (next_id c)\<rparr>) else rp) True = (Inr (rp', ch'), c')"
    then show ?thesis using Cons.IH by fastforce
  qed
qed

lemma loop_old:
  "loop_inv c xs \<Longrightarrow> rewrite_loop cfg env sus xs c rp ch = (Inr res, c') \<Longrightarrow> i < next_id c \<Longrightarrow>
   (i \<in> set xs \<longrightarrow> lookup c' i = None) \<and>
   (i \<notin> set xs \<longrightarrow> rel_option (renamed (set xs)) (lookup c i) (lookup c' i))"
proof (induction xs arbitrary: c rp ch)
  case Nil
  then show ?case by (cases "lookup c i") (simp_all add: renamed_refl)
next
  case (Cons x xs)
  from Cons.prems(1,2) show ?case
  proof (rule loop_step)
    fix ins c1
    assume ins: "lookup c x = Some ins" and sr: "step_result c x ins c1" and inv1: "loop_inv c1 xs"
      and rest: "rewrite_loop cfg env sus xs c1
        (if sus then rp(x \<mapsto> \<lparr>start = next_id c, done_instr = Suc (next_id c)\<rparr>) else rp) True = (Inr res, c')"
    have wf: "wf_computation c" using Cons.prems(1) by (simp add: loop_inv_def)
    have lt1: "i < next_id c1" using Cons.prems(3) step_result_next_id [OF sr] by simp
    note IH = Cons.IH [OF inv1 rest lt1]
    have l1: "lookup c1 i = (if i = x then None else map_option (replace_operand x (Suc (next_id c))) (lookup c i))"
      using step_result_lookup_old [OF wf sr Cons.prems(3)] .
    have xnot: "x \<notin> set xs" using Cons.prems(1) by (simp add: loop_inv_def)
    show ?thesis
    proof (cases "i = x")
      case True
      then have "lookup c1 i = None" using l1 by simp
      then have "lookup c' i = None" using IH xnot True by (cases "lookup c' i") auto
      then show ?thesis using True by simp
    next
      case False
      show ?thesis
      proof (cases "i \<in> set xs")
        case True
        then show ?thesis using IH by simp
      next
        case notin: False
        have r: "rel_option (renamed (set xs)) (lookup c1 i) (lookup c' i)" using IH notin by simp
        have "rel_option (renamed (set (x # xs))) (lookup c i) (lookup c' i)"
        proof (cases "lookup c i")
          case None
          then show ?thesis using r l1 False by (cases "lookup c' i") auto
        next
          case (Some a)
          then have c1: "lookup c1 i = Some (replace_operand x (Suc (next_id c)) a)" using l1 False by simp
          then obtain b where b: "lookup c' i = Some b" "renamed (set xs) (replace_operand x (Suc (next_id c)) a) b"
            using r by (cases "lookup c' i") auto
          have "renamed {x} a (replace_operand x (Suc (next_id c)) a)"
            by (rule renamed_replace_operand) simp
          from renamed_trans [OF this b(2), of "set (x # xs)"] have "renamed (set (x # xs)) a b"
            by auto
          then show ?thesis using Some b(1) by simp
        qed
        then show ?thesis using False notin by simp
      qed
    qed
  qed
qed

lemma loop_new:
  "loop_inv c xs \<Longrightarrow> rewrite_loop cfg env sus xs c rp ch = (Inr res, c') \<Longrightarrow> next_id c \<le> i \<Longrightarrow>
   lookup c' i = Some ins' \<Longrightarrow> \<not> is_sync (opcode ins')"
proof (induction xs arbitrary: c rp ch)
  case Nil
  have "wf_computation c" using Nil.prems(1) by (simp add: loop_inv_def)
  then have "lookup c i = None" using Nil.prems(3) by (rule lookup_fresh)
  then show ?case using Nil by simp
next
  case (Cons x xs)
  from Cons.prems(1,2) show ?case
  proof (rule loop_step)
    fix ins c1
    assume ins: "lookup c x = Some ins" and sr: "step_result c x ins c1" and inv1: "loop_inv c1 xs"
      and rest: "rewrite_loop cfg env sus xs c1
        (if sus then rp(x \<mapsto> \<lparr>start = next_id c, done_instr = Suc (next_id c)\<rparr>) else rp) True = (Inr res, c')"
    have wf: "wf_computation c" using Cons.prems(1) by (simp add: loop_inv_def)
    show ?thesis
    proof (cases "next_id c1 \<le> i")
      case True
      then show ?thesis using Cons.IH [OF inv1 rest _ Cons.prems(4)] by simp
    next
      case False
      then have lt1: "i < next_id c1" by simp
      have "i \<notin> set xs" using loop_inv_less [OF Cons.prems(1), of i] Cons.prems(3) by auto
      then have "rel_option (renamed (set xs)) (lookup c1 i) (lookup c' i)"
        using loop_old [OF inv1 rest lt1] by simp
      then obtain a where a: "lookup c1 i = Some a" "renamed (set xs) a ins'"
        using Cons.prems(4) by (cases "lookup c1 i") auto
      have "\<not> is_sync (opcode a)" using wf sr Cons.prems(3) a(1) by (rule step_result_lookup_new)
      then show ?thesis using renamed_opcode [OF a(2)] by simp
    qed
  qed
qed

subsection \<open>Counting instructions by kind\<close>

lemma count_added: "count_instr P (added c ins) = count_instr P c + (if P ins then 1 else 0)"
  by (simp add: count_instr_def)

lemma filter_absent_key: "x \<notin> fst ` set l \<Longrightarrow> filter (\<lambda>(i, ins). i \<noteq> x) l = l"
  by (induction l) auto

lemma count_rewired:
  assumes "distinct (map fst l)" and "map_of l x = Some ins" and "\<And>a. P (replace_operand x d a) = P a"
  shows "length (filter (\<lambda>(i, a). P a) (rewired x d l)) + (if P ins then 1 else 0) =
         length (filter (\<lambda>(i, a). P a) l)"
  using assms(1,2)
proof (induction l)
  case Nil
  then show ?case by simp
next
  case (Cons p l)
  obtain i a where p: "p = (i, a)" by (cases p)
  show ?case
  proof (cases "i = x")
    case True
    then have a: "a = ins" using Cons.prems(2) p by simp
    have "x \<notin> fst ` set l" using Cons.prems(1) p True by auto
    then have "filter (\<lambda>(i, ins). i \<noteq> x) l = l"
      by (rule filter_absent_key)
    then have "rewired x d l = map (\<lambda>(i, ins). (i, replace_operand x d ins)) l"
      by (simp add: rewired_def)
    then have "length (filter (\<lambda>(i, a). P a) (rewired x d l)) = length (filter (\<lambda>(i, a). P a) l)"
      using assms(3) by (simp add: filter_map comp_def case_prod_unfold)
    then show ?thesis using p True a by (simp add: rewired_def)
  next
    case False
    then have "map_of l x = Some ins" using Cons.prems(2) p by simp
    moreover have "distinct (map fst l)" using Cons.prems(1) by simp
    ultimately have "length (filter (\<lambda>(i, a). P a) (rewired x d l)) + (if P ins then 1 else 0) =
         length (filter (\<lambda>(i, a). P a) l)" by (rule Cons.IH [rotated])
    then show ?thesis using p False assms(3) by (simp add: rewired_def)
  qed
qed

lemma count_replaced:
  assumes "wf_computation c" and "lookup c x = Some ins" and "\<And>a. P (replace_operand x d a) = P a"
  shows "count_instr P (replaced c x d) + (if P ins then 1 else 0) = count_instr P c"
  using assms count_rewired [of "instructions c" x ins P d]
  by (simp add: count_instr_def wf_computation_def lookup_def)

lemma by_kind_replace_operand [simp]: "by_kind K (replace_operand x d a) = by_kind K a"
  by (simp add: by_kind_def replace_operand_def)

lemma step_count:
  assumes wf: "wf_computation c" and x: "lookup c x = Some ins" and sr: "step_result c x ins c1"
    and bal: "balanced K"
  shows "count_instr (by_kind K) c1 + (if by_kind K ins then 1 else 0) =
         count_instr (by_kind K) c + (if K (start_opcode (opcode ins)) [] then 1 else 0)
           + (if K (done_opcode (opcode ins)) [] then 1 else 0)"
proof -
  have r: "count_instr (by_kind K) (replaced c x d) + (if by_kind K ins then 1 else 0) = count_instr (by_kind K) c"
    for d using wf x by (rule count_replaced) simp
  from sr obtain S D where SD: "opcode S = start_opcode (opcode ins)" "custom_call_target S = []"
    "(opcode D = done_opcode (opcode ins) \<and> custom_call_target D = [] \<and>
          c1 = added (added (replaced c x (Suc (next_id c))) S) D) \<or>
         (opcode ins = kCollectivePermute \<and> is_recv_done D \<and>
          c1 = added (added (added (replaced c x (Suc (next_id c))) S) D)
                 (cp_send_done_instr (next_id c) (Suc (next_id c))))"
    unfolding step_result_def by blast
  from SD(3) show ?thesis
  proof
    assume "opcode D = done_opcode (opcode ins) \<and> custom_call_target D = [] \<and>
          c1 = added (added (replaced c x (Suc (next_id c))) S) D"
    then show ?thesis using SD(1,2) r [of "Suc (next_id c)"]
      by (simp add: count_added by_kind_def)
  next
    assume a: "opcode ins = kCollectivePermute \<and> is_recv_done D \<and>
          c1 = added (added (added (replaced c x (Suc (next_id c))) S) D)
                 (cp_send_done_instr (next_id c) (Suc (next_id c)))"
    have "by_kind K (cp_send_done_instr (next_id c) (Suc (next_id c))) = K kCustomCall ''$cp_send_done''"
      by (simp add: by_kind_def cp_send_done_instr_def CreateCustomCall_def new_instruction_def)
    moreover have "by_kind K D = K kCustomCall ''$cp_recv_done''"
      using a by (simp add: by_kind_def is_recv_done_def)
    moreover have "by_kind K S = K kCollectivePermuteStart []"
      using a SD(1,2) by (simp add: by_kind_def start_opcode_def)
    moreover have "done_opcode (opcode ins) = kCollectivePermuteDone" "start_opcode (opcode ins) = kCollectivePermuteStart"
      using a by (simp_all add: done_opcode_def start_opcode_def)
    ultimately show ?thesis using a bal r [of "Suc (next_id c)"]
      unfolding balanced_def by (simp add: count_added split: if_splits)
  qed
qed

lemma sel_step:
  assumes wf: "wf_computation c" and sr: "step_result c x ins c1"
    and xs: "x \<notin> set xs" "\<forall>y \<in> set xs. y < next_id c"
  shows "sel c1 (by_kind K) xs = sel c (by_kind K) xs"
  unfolding sel_def
proof (rule filter_cong [OF refl])
  fix y assume y: "y \<in> set xs"
  then have "y < next_id c" "y \<noteq> x" using xs by auto
  then have "lookup c1 y = map_option (replace_operand x (Suc (next_id c))) (lookup c y)"
    using step_result_lookup_old [OF wf sr, of y] by simp
  then show "(case lookup c1 y of None \<Rightarrow> False | Some ins \<Rightarrow> by_kind K ins) =
             (case lookup c y of None \<Rightarrow> False | Some ins \<Rightarrow> by_kind K ins)"
    by (cases "lookup c y") simp_all
qed

lemma loop_count:
  assumes bal: "balanced K"
  shows "loop_inv c xs \<Longrightarrow> rewrite_loop cfg env sus xs c rp ch = (Inr res, c') \<Longrightarrow>
    count_instr (by_kind K) c' + length (sel c (by_kind K) xs) =
    count_instr (by_kind K) c + length (sel c (by_kind (\<lambda>k t. K (start_opcode k) [])) xs)
      + length (sel c (by_kind (\<lambda>k t. K (done_opcode k) [])) xs)"
proof (induction xs arbitrary: c rp ch)
  case Nil
  then show ?case by (simp add: sel_def)
next
  case (Cons x xs)
  from Cons.prems(1,2) show ?case
  proof (rule loop_step)
    fix ins c1
    assume ins: "lookup c x = Some ins" and sr: "step_result c x ins c1" and inv1: "loop_inv c1 xs"
      and rest: "rewrite_loop cfg env sus xs c1
        (if sus then rp(x \<mapsto> \<lparr>start = next_id c, done_instr = Suc (next_id c)\<rparr>) else rp) True = (Inr res, c')"
    have wf: "wf_computation c" using Cons.prems(1) by (simp add: loop_inv_def)
    have xs: "x \<notin> set xs" "\<forall>y \<in> set xs. y < next_id c"
      using Cons.prems(1) loop_inv_less [OF Cons.prems(1)] by (auto simp: loop_inv_def)
    note s = sel_step [OF wf sr xs]
    note IH = Cons.IH [OF inv1 rest, unfolded s]
    note st = step_count [OF wf ins sr bal]
    have hd: "sel c P (x # xs) = (if P ins then x # sel c P xs else sel c P xs)" for P
      using ins by (simp add: sel_def)
    have k: "by_kind (\<lambda>k t. K (start_opcode k) []) ins = K (start_opcode (opcode ins)) []"
      "by_kind (\<lambda>k t. K (done_opcode k) []) ins = K (done_opcode (opcode ins)) []"
      by (simp_all add: by_kind_def)
    show ?thesis using IH st
      by (cases "by_kind K ins"; cases "K (start_opcode (opcode ins)) []";
          cases "K (done_opcode (opcode ins)) []") (simp_all add: hd k)
  qed
qed

lemma is_supported_sync: "is_supported_collective cfg ins \<Longrightarrow> is_sync (opcode ins)"
  by (auto simp: is_supported_collective_def is_sync_def)

lemma sel_map_fst:
  assumes "\<forall>(i, ins) \<in> set l'. lookup c i = Some ins"
  shows "sel c P (map fst l') = map fst (filter (\<lambda>(i, ins). P ins) l')"
  using assms by (induction l') (auto simp: sel_def)

lemma wf_lookup_mem: "wf_computation c \<Longrightarrow> (i, ins) \<in> set (instructions c) \<Longrightarrow> lookup c i = Some ins"
  by (simp add: wf_computation_def lookup_def)

lemma sel_supported:
  assumes wf: "wf_computation c" and acc: "accepts_every_collective cfg c"
  shows "length (sel c P (supported_collectives cfg c)) =
         count_instr (\<lambda>ins. is_sync (opcode ins) \<and> P ins) c"
proof -
  let ?S = "\<lambda>(i, ins). is_supported_collective cfg ins"
  have "\<forall>(i, ins) \<in> set (filter ?S (instructions c)). lookup c i = Some ins"
    using wf by (auto intro: wf_lookup_mem)
  then have "sel c P (supported_collectives cfg c) =
        map fst (filter (\<lambda>(i, ins). P ins) (filter ?S (instructions c)))"
    unfolding supported_collectives_def by (rule sel_map_fst)
  moreover have "filter (\<lambda>(i, ins). P ins) (filter ?S (instructions c)) =
        filter (\<lambda>(i, ins). is_sync (opcode ins) \<and> P ins) (instructions c)"
    unfolding filter_filter
    apply (rule filter_cong [OF refl])
    using acc is_supported_sync [of cfg] by (auto simp: accepts_every_collective_def)
  ultimately show ?thesis by (simp add: count_instr_def)
qed

lemma count_cong: "(\<And>ins. P ins = Q ins) \<Longrightarrow> count_instr P c = count_instr Q c"
  by (simp add: count_instr_def)

lemma count_False: "count_instr (\<lambda>ins. False) c = 0"
  by (simp add: count_instr_def)

lemma length_filter_disj:
  "(\<And>ins. \<not> (P ins \<and> Q ins)) \<Longrightarrow>
   length (filter (\<lambda>(i, ins). P ins \<or> Q ins) l) =
   length (filter (\<lambda>(i, ins). P ins) l) + length (filter (\<lambda>(i, ins). Q ins) (l :: (instr_id \<times> HloInstruction) list))"
  by (induction l) auto

lemma count_disj:
  "(\<And>ins. \<not> (P ins \<and> Q ins)) \<Longrightarrow>
   count_instr (\<lambda>ins. P ins \<or> Q ins) c = count_instr P c + count_instr Q c"
  unfolding count_instr_def by (rule length_filter_disj)

lemma loop_counts:
  assumes wf: "wf_computation c" and acc: "accepts_every_collective cfg c"
    and run: "rewrite_loop cfg env sus (supported_collectives cfg c) c rp ch = (Inr res, c')"
    and k: "is_sync k"
  shows "count_instr (\<lambda>ins. opcode ins = k) c' = 0"
    and "count_instr (is_start_for k) c' = count_instr (is_start_for k) c + count_instr (\<lambda>ins. opcode ins = k) c"
    and "count_instr (is_done_for k) c' = count_instr (is_done_for k) c + count_instr (\<lambda>ins. opcode ins = k) c"
proof -
  note inv = candidates_inv [OF wf, of cfg]
  note sup = sel_supported [OF wf acc]
  have e1: "(\<lambda>ins. opcode ins = k) = by_kind (\<lambda>k' t. k' = k)" by (simp add: by_kind_def fun_eq_iff)
  have b1: "balanced (\<lambda>k' t. k' = k)" using k by (auto simp: balanced_def is_sync_def)
  have "count_instr (\<lambda>ins. opcode ins = k) c' + count_instr (\<lambda>ins. is_sync (opcode ins) \<and> opcode ins = k) c =
        count_instr (\<lambda>ins. opcode ins = k) c
        + count_instr (\<lambda>ins. is_sync (opcode ins) \<and> start_opcode (opcode ins) = k) c
        + count_instr (\<lambda>ins. is_sync (opcode ins) \<and> done_opcode (opcode ins) = k) c"
    using loop_count [OF b1 inv run] unfolding sup e1 [symmetric] by (simp add: by_kind_def)
  moreover have "count_instr (\<lambda>ins. is_sync (opcode ins) \<and> opcode ins = k) c = count_instr (\<lambda>ins. opcode ins = k) c"
    using k by (intro count_cong) auto
  moreover have "count_instr (\<lambda>ins. is_sync (opcode ins) \<and> start_opcode (opcode ins) = k) c = 0"
    using k by (subst count_cong [where Q = "\<lambda>ins. False"])
      (auto simp: count_False is_sync_def start_opcode_def split: if_splits)
  moreover have "count_instr (\<lambda>ins. is_sync (opcode ins) \<and> done_opcode (opcode ins) = k) c = 0"
    using k by (subst count_cong [where Q = "\<lambda>ins. False"])
      (auto simp: count_False is_sync_def done_opcode_def split: if_splits)
  ultimately show "count_instr (\<lambda>ins. opcode ins = k) c' = 0" by simp
next
  note inv = candidates_inv [OF wf, of cfg]
  note sup = sel_supported [OF wf acc]
  have e1: "is_start_for k = by_kind (\<lambda>k' t. k' = start_opcode k)"
    by (simp add: by_kind_def is_start_for_def fun_eq_iff)
  have b1: "balanced (\<lambda>k' t. k' = start_opcode k)"
    using k by (auto simp: balanced_def is_sync_def start_opcode_def)
  have "count_instr (is_start_for k) c' + count_instr (\<lambda>ins. is_sync (opcode ins) \<and> is_start_for k ins) c =
        count_instr (is_start_for k) c
        + count_instr (\<lambda>ins. is_sync (opcode ins) \<and> start_opcode (opcode ins) = start_opcode k) c
        + count_instr (\<lambda>ins. is_sync (opcode ins) \<and> done_opcode (opcode ins) = start_opcode k) c"
    using loop_count [OF b1 inv run] unfolding sup e1 [symmetric] by (simp add: by_kind_def)
  moreover have "count_instr (\<lambda>ins. is_sync (opcode ins) \<and> is_start_for k ins) c = 0"
    using k by (subst count_cong [where Q = "\<lambda>ins. False"])
      (auto simp: count_False is_sync_def start_opcode_def is_start_for_def split: if_splits)
  moreover have "count_instr (\<lambda>ins. is_sync (opcode ins) \<and> start_opcode (opcode ins) = start_opcode k) c =
       count_instr (\<lambda>ins. opcode ins = k) c"
    using k by (intro count_cong) (auto simp: is_sync_def start_opcode_def split: if_splits)
  moreover have "count_instr (\<lambda>ins. is_sync (opcode ins) \<and> done_opcode (opcode ins) = start_opcode k) c = 0"
    using k by (subst count_cong [where Q = "\<lambda>ins. False"])
      (auto simp: count_False is_sync_def done_opcode_def start_opcode_def split: if_splits)
  ultimately show "count_instr (is_start_for k) c' = count_instr (is_start_for k) c + count_instr (\<lambda>ins. opcode ins = k) c"
    by simp
next
  note inv = candidates_inv [OF wf, of cfg]
  note sup = sel_supported [OF wf acc]
  let ?K = "\<lambda>k' t. k' = done_opcode k \<or> (k = kCollectivePermute \<and> k' = kCustomCall \<and> t = ''$cp_recv_done'')"
  have e1: "is_done_for k = by_kind ?K"
    by (simp add: by_kind_def is_done_for_def is_recv_done_def fun_eq_iff)
  have b1: "balanced ?K"
    using k by (auto simp: balanced_def is_sync_def done_opcode_def)
  have "count_instr (is_done_for k) c' + count_instr (\<lambda>ins. is_sync (opcode ins) \<and> is_done_for k ins) c =
        count_instr (is_done_for k) c
        + count_instr (\<lambda>ins. is_sync (opcode ins) \<and> ?K (start_opcode (opcode ins)) []) c
        + count_instr (\<lambda>ins. is_sync (opcode ins) \<and> ?K (done_opcode (opcode ins)) []) c"
    using loop_count [OF b1 inv run] unfolding sup e1 [symmetric] by (simp add: by_kind_def)
  moreover have "count_instr (\<lambda>ins. is_sync (opcode ins) \<and> is_done_for k ins) c = 0"
    using k by (subst count_cong [where Q = "\<lambda>ins. False"])
      (auto simp: count_False is_sync_def done_opcode_def is_done_for_def is_recv_done_def split: if_splits)
  moreover have "count_instr (\<lambda>ins. is_sync (opcode ins) \<and> ?K (start_opcode (opcode ins)) []) c = 0"
    using k by (subst count_cong [where Q = "\<lambda>ins. False"])
      (auto simp: count_False is_sync_def done_opcode_def start_opcode_def split: if_splits)
  moreover have "count_instr (\<lambda>ins. is_sync (opcode ins) \<and> ?K (done_opcode (opcode ins)) []) c =
       count_instr (\<lambda>ins. opcode ins = k) c"
    using k by (intro count_cong) (auto simp: is_sync_def done_opcode_def split: if_splits)
  ultimately show "count_instr (is_done_for k) c' = count_instr (is_done_for k) c + count_instr (\<lambda>ins. opcode ins = k) c"
    by simp
qed

lemma loop_send_recv:
  assumes wf: "wf_computation c" and acc: "accepts_every_collective cfg c"
    and run: "rewrite_loop cfg env sus (supported_collectives cfg c) c rp ch = (Inr res, c')"
  shows "count_instr is_send_done c' + count_instr is_recv_done c =
         count_instr is_send_done c + count_instr is_recv_done c'"
proof -
  note inv = candidates_inv [OF wf, of cfg]
  note sup = sel_supported [OF wf acc]
  let ?D = "\<lambda>ins. opcode ins = kCollectivePermuteDone \<and> custom_call_target ins = []"
  let ?A = "\<lambda>k' t. (k' = kCustomCall \<and> t = ''$cp_send_done'') \<or> (k' = kCollectivePermuteDone \<and> t = [])"
  let ?B = "\<lambda>k' t. (k' = kCustomCall \<and> t = ''$cp_recv_done'') \<or> (k' = kCollectivePermuteDone \<and> t = [])"
  let ?n = "count_instr (\<lambda>ins. opcode ins = kCollectivePermute) c"
  have bA: "balanced ?A" and bB: "balanced ?B" by (simp_all add: balanced_def)
  have z: "count_instr (\<lambda>ins. is_sync (opcode ins) \<and> Q ins) c = 0" if "\<And>ins. is_sync (opcode ins) \<Longrightarrow> \<not> Q ins" for Q
    using that by (subst count_cong [where Q = "\<lambda>ins. False"]) (auto simp: count_False)
  have n: "count_instr (\<lambda>ins. is_sync (opcode ins) \<and> Q ins) c = ?n"
    if "\<And>ins. is_sync (opcode ins) \<Longrightarrow> Q ins = (opcode ins = kCollectivePermute)" for Q
    using that by (intro count_cong) (auto simp: is_sync_def)
  have A: "count_instr (by_kind ?A) c' = count_instr (by_kind ?A) c + ?n"
    using loop_count [OF bA inv run] unfolding sup
    apply (subst (asm) z)
     apply (simp add: by_kind_def is_sync_def)
     apply fastforce
    apply (subst (asm) z)
     apply (simp add: by_kind_def is_sync_def start_opcode_def)
    apply (subst (asm) n)
     apply (auto simp add: by_kind_def is_sync_def done_opcode_def)
    done
  have B: "count_instr (by_kind ?B) c' = count_instr (by_kind ?B) c + ?n"
    using loop_count [OF bB inv run] unfolding sup
    apply (subst (asm) z)
     apply (simp add: by_kind_def is_sync_def)
     apply fastforce
    apply (subst (asm) z)
     apply (simp add: by_kind_def is_sync_def start_opcode_def)
    apply (subst (asm) n)
     apply (auto simp add: by_kind_def is_sync_def done_opcode_def)
    done
  have sA: "count_instr (by_kind ?A) d = count_instr is_send_done d + count_instr ?D d" for d
    unfolding by_kind_def is_send_done_def by (rule count_disj) auto
  have sB: "count_instr (by_kind ?B) d = count_instr is_recv_done d + count_instr ?D d" for d
    unfolding by_kind_def is_recv_done_def by (rule count_disj) auto
  from A B show ?thesis unfolding sA sB by simp
qed

lemma count_zero: "count_instr P c = 0 \<Longrightarrow> (i, ins) \<in> set (instructions c) \<Longrightarrow> \<not> P ins"
  unfolding count_instr_def by (auto simp: filter_empty_conv)

lemma no_sync_no_candidates:
  assumes "\<And>kind. is_sync kind \<Longrightarrow> count_instr (\<lambda>ins. opcode ins = kind) c = 0"
  shows "supported_collectives cfg c = []"
proof -
  have "\<not> is_supported_collective cfg ins" if "(i, ins) \<in> set (instructions c)" for i ins
  proof
    assume "is_supported_collective cfg ins"
    then have "is_sync (opcode ins)" by (rule is_supported_sync)
    from count_zero [OF assms [OF this] that] show False by simp
  qed
  then show ?thesis unfolding supported_collectives_def by (auto simp: filter_empty_conv)
qed

subsection \<open>The recorded pairs\<close>

lemma replaces_cong:
  "opcode a = opcode b \<Longrightarrow> metadata a = metadata b \<Longrightarrow> backend_config a = backend_config b \<Longrightarrow>
   replaces c a pair = replaces c b pair"
  by (simp add: replaces_def)

lemma replaces_kept:
  assumes inv: "loop_inv c1 xs" and run: "rewrite_loop cfg env sus xs c1 rp ch = (Inr res, c')"
    and r: "replaces c1 ins pair" and lt: "done_instr pair < next_id c1" and notin: "start pair \<notin> set xs" "done_instr pair \<notin> set xs"
  shows "replaces c' ins pair"
proof -
  from r obtain S D where SD: "done_instr pair = Suc (start pair)"
    "lookup c1 (start pair) = Some S" "is_start_for (opcode ins) S"
    "metadata S = metadata ins" "backend_config S = backend_config ins"
    "lookup c1 (done_instr pair) = Some D" "is_done_for (opcode ins) D" "operands D = [start pair]"
    unfolding replaces_def by blast
  have "start pair < next_id c1" using lt SD(1) by simp
  from loop_old [OF inv run this] notin(1) SD(2)
  obtain S' where S': "lookup c' (start pair) = Some S'" "renamed (set xs) S S'"
    by (cases "lookup c' (start pair)") auto
  from loop_old [OF inv run lt] notin(2) SD(6)
  obtain D' where D': "lookup c' (done_instr pair) = Some D'" "renamed (set xs) D D'"
    by (cases "lookup c' (done_instr pair)") auto
  have "operands D' = operands D"
    using D'(2) by (rule renamed_operands) (use SD(8) notin(1) in simp)
  moreover note renamed_opcode [OF S'(2)] renamed_opcode [OF D'(2)]
  ultimately show ?thesis
    unfolding replaces_def using SD S'(1) D'(1)
    by (auto simp: is_start_for_def is_done_for_def is_recv_done_def)
qed

lemma step_result_replaces:
  assumes wf: "wf_computation c" and sr: "step_result c x ins c1"
  shows "replaces c1 ins \<lparr> start = next_id c, done_instr = Suc (next_id c) \<rparr>"
  using step_result_lookup_start [OF wf sr] step_result_lookup_done [OF wf sr]
  unfolding replaces_def by (auto simp: is_start_for_def)

lemma loop_pairs:
  "loop_inv c xs \<Longrightarrow> rewrite_loop cfg env True xs c rp ch = (Inr (rp', ch'), c') \<Longrightarrow>
   (\<forall>i. i \<notin> set xs \<longrightarrow> rp' i = rp i) \<and>
   (\<forall>x \<in> set xs. \<exists>pair ins. rp' x = Some pair \<and> lookup c x = Some ins \<and>
       next_id c \<le> start pair \<and> done_instr pair < next_id c' \<and> replaces c' ins pair)"
proof (induction xs arbitrary: c rp ch)
  case Nil
  then show ?case by simp
next
  case (Cons x xs)
  from Cons.prems(1,2) show ?case
  proof (rule loop_step)
    fix ins c1
    let ?p = "\<lparr>start = next_id c, done_instr = Suc (next_id c)\<rparr>"
    assume ins: "lookup c x = Some ins" and sr: "step_result c x ins c1" and inv1: "loop_inv c1 xs"
      and rest: "rewrite_loop cfg env True xs c1 (if True then rp(x \<mapsto> ?p) else rp) True = (Inr (rp', ch'), c')"
    have wf: "wf_computation c" and xnot: "x \<notin> set xs" using Cons.prems(1) by (simp_all add: loop_inv_def)
    have less: "\<forall>y \<in> set xs. y < next_id c" using loop_inv_less [OF Cons.prems(1)] by auto
    have n1: "Suc (Suc (next_id c)) \<le> next_id c1" using sr by (rule step_result_next_id)
    have n2: "next_id c1 \<le> next_id c'" using inv1 rest by (rule loop_next_id)
    from rest have rest': "rewrite_loop cfg env True xs c1 (rp(x \<mapsto> ?p)) True = (Inr (rp', ch'), c')" by simp
    note IH = Cons.IH [OF inv1 rest']
    have frame: "\<forall>i. i \<notin> set (x # xs) \<longrightarrow> rp' i = rp i" using IH by auto
    have px: "rp' x = Some ?p" using IH xnot by auto
    have "replaces c1 ins ?p" using wf sr by (rule step_result_replaces)
    then have "replaces c' ins ?p"
      using inv1 rest' less n1 by (intro replaces_kept [of c1 xs cfg env True _ _ _ c']) auto
    then have hd: "\<exists>pair ins. rp' x = Some pair \<and> lookup c x = Some ins \<and>
       next_id c \<le> start pair \<and> done_instr pair < next_id c' \<and> replaces c' ins pair"
      using px ins n1 n2 by auto
    have tl: "\<exists>pair ins. rp' y = Some pair \<and> lookup c y = Some ins \<and>
       next_id c \<le> start pair \<and> done_instr pair < next_id c' \<and> replaces c' ins pair" if y: "y \<in> set xs" for y
    proof -
      from IH y obtain pair i1 where p: "rp' y = Some pair" "lookup c1 y = Some i1"
        "next_id c1 \<le> start pair" "done_instr pair < next_id c'" "replaces c' i1 pair"
        by blast
      have "y < next_id c" "y \<noteq> x" using y less xnot by auto
      then have "lookup c1 y = map_option (replace_operand x (Suc (next_id c))) (lookup c y)"
        using step_result_lookup_old [OF wf sr, of y] by simp
      then obtain i0 where i0: "lookup c y = Some i0" "i1 = replace_operand x (Suc (next_id c)) i0"
        using p(2) by (cases "lookup c y") auto
      have "replaces c' i0 pair = replaces c' i1 pair"
        using i0(2) by (intro replaces_cong) (simp_all add: replace_operand_def)
      then have "replaces c' i0 pair" using p(5) by simp
      then show ?thesis using p i0(1) n1 by auto
    qed
    show ?thesis using frame hd tl by simp
  qed
qed

lemma loop_no_pairs:
  "loop_inv c xs \<Longrightarrow> rewrite_loop cfg env False xs c rp ch = (Inr (rp', ch'), c') \<Longrightarrow> rp' = rp"
proof (induction xs arbitrary: c ch)
  case Nil
  then show ?case by simp
next
  case (Cons x xs)
  from Cons.prems(1,2) show ?case
    by (rule loop_step) (use Cons.IH in simp)
qed

subsection \<open>Where a failed CHECK can come from\<close>

lemma rewrite_all_reduce_no_check:
  "rewrite_all_reduce env c x ar = (Inl e, c1) \<Longrightarrow> e \<noteq> CheckFailed a b"
  by (auto simp: rewrite_all_reduce_def ReplaceWithNewInstruction_def AddInstruction_def
      ReplaceInstruction_def Let_def
      split: option.splits sum.splits prod.splits error.splits)

lemma rewrite_all_gather_no_check:
  "rewrite_all_gather env c x ag = (Inl e, c1) \<Longrightarrow> e \<noteq> CheckFailed a b"
  by (auto simp: rewrite_all_gather_def ReplaceWithNewInstruction_def AddInstruction_def
      ReplaceInstruction_def Let_def
      split: option.splits sum.splits prod.splits error.splits if_splits list.splits)

lemma rewrite_all_to_all_no_check:
  "rewrite_all_to_all env c x = (Inl e, c1) \<Longrightarrow> e \<noteq> CheckFailed a b"
  by (auto simp: rewrite_all_to_all_def CreateAsyncInstructions_def AddInstruction_def
      ReplaceInstruction_def Let_def
      split: option.splits sum.splits prod.splits error.splits if_splits list.splits)

lemma collective_permute_start_check:
  "collective_permute_start env c cp = (Inl (CheckFailed a b), c1) \<Longrightarrow>
   1 < operand_count cp \<and> operand_count cp \<noteq> 4"
  by (cases "operands cp")
    (auto simp: collective_permute_start_def AddInstruction_def Let_def operand_count_def
      split: option.splits sum.splits prod.splits if_splits)

lemma collective_permute_done_no_check:
  "collective_permute_done cfg c cp s = (Inl e, c1) \<Longrightarrow> e \<noteq> CheckFailed a b"
  by (auto simp: collective_permute_done_def AddControlDependencyTo_def AddInstruction_def Let_def
      split: option.splits sum.splits prod.splits if_splits)

lemma rewrite_collective_permute_check:
  assumes "rewrite_collective_permute cfg env c x cp = (Inl (CheckFailed a b), c1)"
  shows "1 < operand_count cp \<and> operand_count cp \<noteq> 4"
proof (cases "collective_permute_start env c cp")
  case (Pair r c2)
  show ?thesis
  proof (cases r)
    case (Inl e)
    then have "e = CheckFailed a b" using assms Pair by (simp add: rewrite_collective_permute_def)
    then show ?thesis using collective_permute_start_check [of env c cp a b c2] Pair Inl by simp
  next
    case (Inr s)
    let ?c3 = "CopyBackendConfigFrom (set_metadata c2 s (metadata cp)) s cp"
    obtain r2 c4 where d: "collective_permute_done cfg ?c3 cp s = (r2, c4)"
      by (cases "collective_permute_done cfg ?c3 cp s")
    show ?thesis
    proof (cases r2)
      case (Inl e)
      then have "e = CheckFailed a b" using assms Pair Inr d
        by (simp add: rewrite_collective_permute_def Let_def)
      then show ?thesis using collective_permute_done_no_check [of cfg ?c3 cp s e c4 a b] d Inl by simp
    next
      case inr: (Inr dn)
      then show ?thesis using assms Pair Inr d
        by (auto simp: rewrite_collective_permute_def Let_def ReplaceInstruction_def
            split: option.splits sum.splits)
    qed
  qed
qed

lemma rewrite_collective_check:
  assumes "rewrite_collective cfg env c x = (Inl (CheckFailed a b), c1)"
  shows "\<exists>cp. lookup c x = Some cp \<and> opcode cp = kCollectivePermute \<and>
              1 < operand_count cp \<and> operand_count cp \<noteq> 4"
proof (cases "lookup c x")
  case None
  then show ?thesis using assms by (simp add: rewrite_collective_def)
next
  case (Some ins)
  consider (ar) "opcode ins = kAllReduce" | (ag) "opcode ins = kAllGather"
    | (cp) "opcode ins = kCollectivePermute" | (ata) "opcode ins = kAllToAll"
    | (other) "\<not> is_sync (opcode ins)"
    by (auto simp: is_sync_def)
  then show ?thesis
  proof cases
    case ar
    then have "rewrite_all_reduce env c x ins = (Inl (CheckFailed a b), c1)"
      using assms Some by (auto simp: rewrite_collective_def split: prod.splits sum.splits)
    then show ?thesis using rewrite_all_reduce_no_check by blast
  next
    case ag
    then have "rewrite_all_gather env c x ins = (Inl (CheckFailed a b), c1)"
      using assms Some by (auto simp: rewrite_collective_def split: prod.splits sum.splits)
    then show ?thesis using rewrite_all_gather_no_check by blast
  next
    case cp
    then have "rewrite_collective_permute cfg env c x ins = (Inl (CheckFailed a b), c1)"
      using assms Some by (auto simp: rewrite_collective_def split: prod.splits sum.splits)
    then show ?thesis using rewrite_collective_permute_check cp Some by blast
  next
    case ata
    then have "rewrite_all_to_all env c x = (Inl (CheckFailed a b), c1)"
      using assms Some by (auto simp: rewrite_collective_def split: prod.splits sum.splits)
    then show ?thesis using rewrite_all_to_all_no_check by blast
  next
    case other
    then show ?thesis using assms Some
      by (auto simp: rewrite_collective_def is_sync_def split: prod.splits sum.splits)
  qed
qed

lemma loop_no_check:
  "loop_inv c xs \<Longrightarrow> permutes_have_four c xs \<Longrightarrow>
   rewrite_loop cfg env sus xs c rp ch = (Inl e, c') \<Longrightarrow> e \<noteq> CheckFailed a b"
proof (induction xs arbitrary: c rp ch)
  case Nil
  then show ?case by simp
next
  case (Cons x xs)
  obtain r c1 where step: "rewrite_collective cfg env c x = (r, c1)"
    by (cases "rewrite_collective cfg env c x")
  show ?case
  proof (cases r)
    case (Inl e1)
    then have e: "e = e1" using Cons.prems(3) step by simp
    show ?thesis
    proof
      assume "e = CheckFailed a b"
      then have "rewrite_collective cfg env c x = (Inl (CheckFailed a b), c1)" using step Inl e by simp
      from rewrite_collective_check [OF this] Cons.prems(2) show False
        by (auto simp: permutes_have_four_def)
    qed
  next
    case (Inr r1)
    from loop_step1 [OF Cons.prems(1) step [unfolded Inr]] obtain ins where
      ins: "lookup c x = Some ins" and sr: "step_result c x ins c1"
      and r1: "r1 = Some \<lparr> start = next_id c, done_instr = Suc (next_id c) \<rparr>"
      and inv1: "loop_inv c1 xs"
      by blast
    have wf: "wf_computation c" and xnot: "x \<notin> set xs" using Cons.prems(1) by (simp_all add: loop_inv_def)
    have four1: "permutes_have_four c1 xs"
      unfolding permutes_have_four_def
    proof (intro ballI allI impI)
      fix y cp assume y: "y \<in> set xs"
        and cp: "lookup c1 y = Some cp \<and> opcode cp = kCollectivePermute \<and> 1 < operand_count cp"
      have "y < next_id c" using loop_inv_less [OF Cons.prems(1), of y] y by simp
      moreover have "y \<noteq> x" using y xnot by auto
      ultimately have "lookup c1 y = map_option (replace_operand x (Suc (next_id c))) (lookup c y)"
        using step_result_lookup_old [OF wf sr, of y] by simp
      then obtain cp0 where cp0: "lookup c y = Some cp0" "cp = replace_operand x (Suc (next_id c)) cp0"
        using cp by (cases "lookup c y") auto
      then have "opcode cp0 = kCollectivePermute" "operand_count cp0 = operand_count cp"
        using cp by (simp_all add: replace_operand_def operand_count_def)
      then show "operand_count cp = 4"
        using Cons.prems(2) y cp0(1) cp by (auto simp: permutes_have_four_def)
    qed
    have "rewrite_loop cfg env sus xs c1
        (if sus then rp(x \<mapsto> \<lparr> start = next_id c, done_instr = Suc (next_id c) \<rparr>) else rp) True = (Inl e, c')"
      using Cons.prems(3) step Inr r1 by simp
    from Cons.IH [OF inv1 four1 this] show ?thesis .
  qed
qed

lemma candidates_have_four:
  assumes wf: "wf_computation c"
    and ok: "\<forall>(i, ins) \<in> set (instructions c).
        opcode ins = kCollectivePermute \<and> convert_collective_permute cfg ins \<and>
        1 < operand_count ins \<longrightarrow> operand_count ins = 4"
  shows "permutes_have_four c (supported_collectives cfg c)"
  unfolding permutes_have_four_def
proof (intro ballI allI impI)
  fix x cp assume x: "x \<in> set (supported_collectives cfg c)"
    and cp: "lookup c x = Some cp \<and> opcode cp = kCollectivePermute \<and> 1 < operand_count cp"
  from x obtain ins where ins: "(x, ins) \<in> set (instructions c)" "is_supported_collective cfg ins"
    by (auto simp: supported_collectives_def)
  have "lookup c x = Some ins" using wf ins(1) by (rule wf_lookup_mem)
  then have "ins = cp" using cp by simp
  then have "convert_collective_permute cfg cp" using ins(2) cp
    by (auto simp: is_supported_collective_def)
  then show "operand_count cp = 4" using ok ins(1) \<open>ins = cp\<close> cp by auto
qed

section \<open>The loop over the computations\<close>

lemma new_sequence_empty: "new_sequence Map.empty seq = seq"
  by (induction seq) auto

lemma map_of_update_other: "k' \<noteq> k \<Longrightarrow> map_of (AList.update k v al) k' = map_of al k'"
  by (simp add: update_conv')

lemma map_of_update_same: "map_of (AList.update k v al) k = Some v"
  by (simp add: update_conv')

lemma keys_update_present: "map_of al k = Some v0 \<Longrightarrow> map fst (AList.update k v al) = map fst al"
  by (simp add: update_keys) (metis domI dom_map_of_conv_image_fst image_set)

lemma process_computation_frame:
  assumes "process_computation cfg env m k ch = (r, m')"
  shows "has_schedule m' = has_schedule m \<and> map fst (computations m') = map fst (computations m) \<and>
         (\<forall>k'. k' \<noteq> k \<longrightarrow> map_of (computations m') k' = map_of (computations m) k' \<and>
                map_of (sequences m') k' = map_of (sequences m) k')"
proof (cases "map_of (computations m) k")
  case None
  then show ?thesis using assms by (simp add: process_computation_def)
next
  case (Some c)
  have a: "has_schedule (set_computation m k c1) = has_schedule m \<and>
        map fst (computations (set_computation m k c1)) = map fst (computations m) \<and>
        sequences (set_computation m k c1) = sequences m \<and>
        (\<forall>k'. k' \<noteq> k \<longrightarrow> map_of (computations (set_computation m k c1)) k' = map_of (computations m) k')" for c1
    using Some by (simp add: set_computation_def keys_update_present map_of_update_other)
  have b: "has_schedule (set_sequence m1 k s) = has_schedule m1 \<and>
        computations (set_sequence m1 k s) = computations m1 \<and>
        (\<forall>k'. k' \<noteq> k \<longrightarrow> map_of (sequences (set_sequence m1 k s)) k' = map_of (sequences m1) k')" for m1 s
    by (simp add: set_sequence_def map_of_update_other)
  show ?thesis
    using assms Some a b
    by (auto simp: process_computation_def Let_def split: if_splits prod.splits sum.splits option.splits)
qed

lemma process_computation_no_candidates:
  "map_of (computations m) k = Some c \<Longrightarrow> supported_collectives cfg c = [] \<Longrightarrow>
   process_computation cfg env m k ch = (Inr ch, m)"
  by (simp add: process_computation_def)

lemma process_computation_Inr:
  assumes c: "map_of (computations m) k = Some c"
    and r: "process_computation cfg env m k ch = (Inr ch', m')"
  shows "\<exists>rp c'. rewrite_loop cfg env (has_schedule m \<and> map_of (sequences m) k \<noteq> None)
                   (supported_collectives cfg c) c Map.empty ch = (Inr (rp, ch'), c') \<and>
           map_of (computations m') k = Some c' \<and>
           map_of (sequences m') k =
             (if has_schedule m then map_option (new_sequence rp) (map_of (sequences m) k)
              else map_of (sequences m) k)"
proof (cases "supported_collectives cfg c = []")
  case True
  then have "m' = m" "ch' = ch" using c r by (simp_all add: process_computation_def)
  then show ?thesis using True c
    by (cases "map_of (sequences m) k") (auto simp: new_sequence_empty)
next
  case False
  let ?sus = "has_schedule m \<and> map_of (sequences m) k \<noteq> None"
  obtain rp c' where loop: "rewrite_loop cfg env ?sus (supported_collectives cfg c) c Map.empty ch = (Inr (rp, ch'), c')"
    using r c False
    by (auto simp: process_computation_def Let_def is_computation_scheduled_def
        split: if_splits prod.splits sum.splits option.splits)
  show ?thesis
  proof (cases ?sus)
    case True
    then obtain seq where seq: "map_of (sequences m) k = Some seq" by auto
    have "m' = set_sequence (set_computation m k c') k (new_sequence rp seq)"
      using r c False loop True seq
      by (auto simp: process_computation_def Let_def is_computation_scheduled_def)
    then show ?thesis using loop True seq
      by (auto simp: set_sequence_def set_computation_def map_of_update_same)
  next
    case nosus: False
    have m': "m' = set_computation m k c'"
      using r c False loop nosus
      by (auto simp: process_computation_def Let_def is_computation_scheduled_def)
    have "map_of (sequences m') k =
             (if has_schedule m then map_option (new_sequence rp) (map_of (sequences m) k)
              else map_of (sequences m) k)"
      using nosus m' by (auto simp: set_computation_def)
    then show ?thesis using loop m' by (auto simp: set_computation_def map_of_update_same)
  qed
qed

lemma Run_loop_frame:
  "Run_loop cfg env ks m ch = (r, m') \<Longrightarrow>
   has_schedule m' = has_schedule m \<and> map fst (computations m') = map fst (computations m) \<and>
   (\<forall>k. k \<notin> set ks \<longrightarrow> map_of (computations m') k = map_of (computations m) k \<and>
          map_of (sequences m') k = map_of (sequences m) k)"
proof (induction ks arbitrary: m ch)
  case Nil
  then show ?case by simp
next
  case (Cons k ks)
  obtain r1 m1 where p: "process_computation cfg env m k ch = (r1, m1)" by (cases "process_computation cfg env m k ch")
  note f = process_computation_frame [OF p]
  show ?case
  proof (cases r1)
    case (Inl e)
    then have "m' = m1" using Cons.prems p by simp
    then show ?thesis using f by auto
  next
    case (Inr ch1)
    then have "Run_loop cfg env ks m1 ch1 = (r, m')" using Cons.prems p by simp
    from Cons.IH [OF this] f show ?thesis by auto
  qed
qed

lemma Run_loop_entry:
  "distinct ks \<Longrightarrow> Run_loop cfg env ks m ch = (Inr ch', m') \<Longrightarrow> k \<in> set ks \<Longrightarrow>
   map_of (computations m) k = Some c \<Longrightarrow>
   \<exists>ch1 ch2 rp c'.
     rewrite_loop cfg env (has_schedule m \<and> map_of (sequences m) k \<noteq> None)
       (supported_collectives cfg c) c Map.empty ch1 = (Inr (rp, ch2), c') \<and>
     map_of (computations m') k = Some c' \<and>
     map_of (sequences m') k =
       (if has_schedule m then map_option (new_sequence rp) (map_of (sequences m) k)
        else map_of (sequences m) k)"
proof (induction ks arbitrary: m ch)
  case Nil
  then show ?case by simp
next
  case (Cons k0 ks)
  obtain ch1 m1 where p: "process_computation cfg env m k0 ch = (Inr ch1, m1)"
    and rest: "Run_loop cfg env ks m1 ch1 = (Inr ch', m')"
    using Cons.prems(2) by (auto split: prod.splits sum.splits)
  note f = process_computation_frame [OF p]
  show ?case
  proof (cases "k = k0")
    case True
    then have "k \<notin> set ks" using Cons.prems(1) by simp
    then have keep: "map_of (computations m') k = map_of (computations m1) k"
      "map_of (sequences m') k = map_of (sequences m1) k"
      using Run_loop_frame [OF rest] by auto
    from process_computation_Inr [OF Cons.prems(4) [unfolded True] p]
    obtain rp c' where a:
      "rewrite_loop cfg env (has_schedule m \<and> map_of (sequences m) k0 \<noteq> None)
                   (supported_collectives cfg c) c Map.empty ch = (Inr (rp, ch1), c')"
      "map_of (computations m1) k0 = Some c'"
      "map_of (sequences m1) k0 =
             (if has_schedule m then map_option (new_sequence rp) (map_of (sequences m) k0)
              else map_of (sequences m) k0)"
      by blast
    show ?thesis
      apply (rule exI [of _ ch], rule exI [of _ ch1], rule exI [of _ rp], rule exI [of _ c'])
      using a keep unfolding True by simp
  next
    case False
    then have k: "k \<in> set ks" using Cons.prems(3) by simp
    have c1: "map_of (computations m1) k = Some c" using f False Cons.prems(4) by simp
    have "distinct ks" using Cons.prems(1) by simp
    from Cons.IH [OF this rest k c1] obtain cha chb rp c' where a:
      "rewrite_loop cfg env (has_schedule m1 \<and> map_of (sequences m1) k \<noteq> None)
        (supported_collectives cfg c) c Map.empty cha = (Inr (rp, chb), c')"
      "map_of (computations m') k = Some c'"
      "map_of (sequences m') k =
       (if has_schedule m1 then map_option (new_sequence rp) (map_of (sequences m1) k)
        else map_of (sequences m1) k)"
      by blast
    have b: "has_schedule m1 = has_schedule m" "map_of (sequences m1) k = map_of (sequences m) k"
      using f False by auto
    show ?thesis
      apply (rule exI [of _ cha], rule exI [of _ chb], rule exI [of _ rp], rule exI [of _ c'])
      using a unfolding b by simp
  qed
qed

lemma Run_loop_no_candidates:
  "\<forall>k \<in> set ks. \<exists>c. map_of (computations m) k = Some c \<and> supported_collectives cfg c = [] \<Longrightarrow>
   Run_loop cfg env ks m ch = (Inr ch, m)"
  by (induction ks) (auto simp: process_computation_no_candidates)

lemma MakeNonfusionComputations_mem:
  "k \<in> set (MakeNonfusionComputations m ts) \<longleftrightarrow>
   (\<exists>c. (k, c) \<in> set (computations m) \<and> \<not> is_fusion c \<and> (ts = {} \<or> execution_thread c \<in> ts))"
  unfolding MakeNonfusionComputations_def by force

lemma MakeNonfusionComputations_distinct:
  "distinct (map fst (computations m)) \<Longrightarrow> distinct (MakeNonfusionComputations m ts)"
  unfolding MakeNonfusionComputations_def by (rule distinct_map_filter)

lemma wf_module_lookup: "wf_module m \<Longrightarrow> map_of (computations m) k = Some c \<Longrightarrow> wf_computation c"
  unfolding wf_module_def by (auto dest: map_of_SomeD)

lemma Run_entry:
  assumes wf: "wf_module m" and run: "Run cfg env m ts = (Inr changed, m')"
    and k: "k \<in> set (MakeNonfusionComputations m ts)" and c: "map_of (computations m) k = Some c"
  shows "\<exists>ch1 ch2 rp c'.
     rewrite_loop cfg env (has_schedule m \<and> map_of (sequences m) k \<noteq> None)
       (supported_collectives cfg c) c Map.empty ch1 = (Inr (rp, ch2), c') \<and>
     map_of (computations m') k = Some c' \<and>
     map_of (sequences m') k =
       (if has_schedule m then map_option (new_sequence rp) (map_of (sequences m) k)
        else map_of (sequences m) k)"
proof -
  have "distinct (MakeNonfusionComputations m ts)"
    using wf by (simp add: wf_module_def MakeNonfusionComputations_distinct)
  from Run_loop_entry [OF this run [unfolded Run_def] k c] show ?thesis .
qed

lemma new_sequence_slot:
  assumes "j < length seq"
  shows "(case rp (seq ! j) of
            None \<Rightarrow> new_sequence rp seq ! (j + length (filter (\<lambda>i. rp i \<noteq> None) (take j seq))) = seq ! j
          | Some pair \<Rightarrow>
              new_sequence rp seq ! (j + length (filter (\<lambda>i. rp i \<noteq> None) (take j seq))) = start pair \<and>
              new_sequence rp seq ! Suc (j + length (filter (\<lambda>i. rp i \<noteq> None) (take j seq))) = done_instr pair)"
  using assms
proof (induction seq arbitrary: j)
  case Nil
  then show ?case by simp
next
  case (Cons a seq)
  show ?case
  proof (cases j)
    case 0
    then show ?thesis by (simp split: option.splits)
  next
    case (Suc j')
    then have "j' < length seq" using Cons.prems by simp
    from Cons.IH [OF this] Suc show ?thesis
      by (cases "rp a") (auto split: option.splits)
  qed
qed

lemma Run_loop_untouched:
  "map_of (computations m) k = Some c \<Longrightarrow> supported_collectives cfg c = [] \<Longrightarrow>
   Run_loop cfg env ks m ch = (r, m') \<Longrightarrow>
   map_of (computations m') k = Some c \<and> map_of (sequences m') k = map_of (sequences m) k \<and>
   has_schedule m' = has_schedule m"
proof (induction ks arbitrary: m ch)
  case Nil
  then show ?case by simp
next
  case (Cons k0 ks)
  obtain r1 m1 where p: "process_computation cfg env m k0 ch = (r1, m1)"
    by (cases "process_computation cfg env m k0 ch")
  have keep: "map_of (computations m1) k = Some c \<and> map_of (sequences m1) k = map_of (sequences m) k \<and>
      has_schedule m1 = has_schedule m"
  proof (cases "k0 = k")
    case True
    then have "m1 = m"
      using p process_computation_no_candidates [OF Cons.prems(1,2), of env ch] by simp
    then show ?thesis using Cons.prems(1) by simp
  next
    case False
    then show ?thesis using process_computation_frame [OF p] Cons.prems(1) by auto
  qed
  show ?case
  proof (cases r1)
    case (Inl e)
    then have "m' = m1" using Cons.prems(3) p by simp
    then show ?thesis using keep by simp
  next
    case (Inr ch1)
    then have "Run_loop cfg env ks m1 ch1 = (r, m')" using Cons.prems(3) p by simp
    from Cons.IH [OF _ Cons.prems(2) this] keep show ?thesis by simp
  qed
qed

lemma process_computation_no_check:
  assumes c: "map_of (computations m) k = Some c" and wf: "wf_computation c"
    and four: "permutes_have_four c (supported_collectives cfg c)"
    and r: "process_computation cfg env m k ch = (Inl e, m')"
  shows "e \<noteq> CheckFailed a b"
proof (cases "supported_collectives cfg c = []")
  case True
  then show ?thesis using r c by (simp add: process_computation_def)
next
  case False
  let ?sus = "has_schedule m \<and> is_computation_scheduled m k"
  obtain r1 c1 where loop: "rewrite_loop cfg env ?sus (supported_collectives cfg c) c Map.empty ch = (r1, c1)"
    by (cases "rewrite_loop cfg env ?sus (supported_collectives cfg c) c Map.empty ch")
  show ?thesis
  proof (cases r1)
    case (Inl e1)
    then have "e = e1" using r c False loop by (simp add: process_computation_def Let_def)
    then show ?thesis
      using loop_no_check [OF candidates_inv [OF wf] four loop [unfolded Inl]] by simp
  next
    case (Inr res)
    then show ?thesis using r c False loop
      by (auto simp: process_computation_def Let_def split: if_splits option.splits prod.splits)
  qed
qed

lemma Run_loop_no_check:
  "distinct ks \<Longrightarrow>
   \<forall>k \<in> set ks. \<forall>c. map_of (computations m) k = Some c \<longrightarrow>
      wf_computation c \<and> permutes_have_four c (supported_collectives cfg c) \<Longrightarrow>
   Run_loop cfg env ks m ch = (Inl e, m') \<Longrightarrow> e \<noteq> CheckFailed a b"
proof (induction ks arbitrary: m ch)
  case Nil
  then show ?case by simp
next
  case (Cons k ks)
  obtain r1 m1 where p: "process_computation cfg env m k ch = (r1, m1)"
    by (cases "process_computation cfg env m k ch")
  show ?case
  proof (cases r1)
    case (Inl e1)
    then have e: "e = e1" using Cons.prems(3) p by simp
    show ?thesis
    proof (cases "map_of (computations m) k")
      case None
      then show ?thesis using p Inl e by (simp add: process_computation_def)
    next
      case (Some c)
      then have "wf_computation c" "permutes_have_four c (supported_collectives cfg c)"
        using Cons.prems(2) by auto
      from process_computation_no_check [OF Some this p [unfolded Inl]] e show ?thesis by simp
    qed
  next
    case (Inr ch1)
    then have rest: "Run_loop cfg env ks m1 ch1 = (Inl e, m')" using Cons.prems(3) p by simp
    have "\<forall>k' \<in> set ks. \<forall>c. map_of (computations m1) k' = Some c \<longrightarrow>
      wf_computation c \<and> permutes_have_four c (supported_collectives cfg c)"
    proof (intro ballI allI impI)
      fix k' c assume k': "k' \<in> set ks" and c: "map_of (computations m1) k' = Some c"
      have "k' \<noteq> k" using k' Cons.prems(1) by auto
      then have "map_of (computations m) k' = Some c" using process_computation_frame [OF p] c by simp
      then show "wf_computation c \<and> permutes_have_four c (supported_collectives cfg c)"
        using Cons.prems(2) k' by simp
    qed
    moreover have "distinct ks" using Cons.prems(1) by simp
    ultimately show ?thesis using rest Cons.IH by blast
  qed
qed

section \<open>The examples, evaluated\<close>

lemma ex_wf: "wf_computation ex_computation"
  by (simp add: wf_computation_def ex_computation_def)

lemma ex_lookup2: "lookup ex_computation 2 = Some (ex_instr kAllReduce [0, 1])"
  by (simp add: lookup_def ex_computation_def)

lemma ex_module_wf: "wf_module ex_module"
  by (simp add: wf_module_def ex_module_def ex_wf)

lemma ex_accepts: "accepts_every_collective accept_all ex_computation"
  by (simp add: accepts_every_collective_def ex_computation_def accept_all_def
      is_supported_collective_def is_sync_def)

lemma ex_accepts_in: "accepts_every_collective_in accept_all ex_module"
  by (simp add: accepts_every_collective_in_def ex_module_def ex_accepts)

lemma ex_eligible: "MakeNonfusionComputations ex_module {} = [0]"
  by (simp add: MakeNonfusionComputations_def ex_module_def ex_computation_def)

lemma ex_comp0: "map_of (computations ex_module) 0 = Some ex_computation"
  by (simp add: ex_module_def)

lemma ex_run_fst: "fst (Run accept_all no_failure ex_module {}) = Inr True"
  by code_simp

lemma ex_run_eq: "Run accept_all no_failure ex_module {} = (Inr True, snd (Run accept_all no_failure ex_module {}))"
  using ex_run_fst by (metis prod.collapse)

lemma ex_counts:
  "count_instr (\<lambda>ins. opcode ins = kAllReduce) ex_computation = 1"
  "count_instr (is_start_for kAllReduce) ex_computation = 0"
  "count_instr (is_done_for kAllReduce) ex_computation = 0"
  by (simp_all add: count_instr_def ex_computation_def ex_instr_def new_instruction_def
      is_start_for_def is_done_for_def start_opcode_def done_opcode_def)

lemma ex_seq0: "map_of (sequences ex_module) 0 = Some [0, 1, 2, 3, 4, 5, 6]"
  by (simp add: ex_module_def)

lemma ex_sync: "distinct [0, 1, 2, 3, 4, 5, 6 :: nat]"
  "set [0, 1, 2, 3, 4, 5, 6] = set (map fst (instructions ex_computation))"
  by (simp_all add: ex_computation_def)

lemma ex_lookup4: "lookup ex_computation 4 = Some (ex_instr kCollectivePermute [3])"
  by (simp add: lookup_def ex_computation_def)

lemma ex_split_step: "fst (rewrite_collective split_tracking no_failure ex_computation 4) =
    Inr (Some \<lparr> start = 7, done_instr = 8 \<rparr>)"
  by code_simp

lemma ex_permute1_wf: "wf_computation ex_permute1"
  by (simp add: wf_computation_def ex_permute1_def)

lemma ex_permute1_lookup:
  "lookup ex_permute1 1 = Some ((ex_instr kCollectivePermute [0]) \<lparr> disjoint_read_write_regions := True \<rparr>)"
  by (simp add: lookup_def ex_permute1_def)

lemma ex_permute1_step: "fst (rewrite_collective accept_all no_failure ex_permute1 1) =
    Inr (Some \<lparr> start = 2, done_instr = 3 \<rparr>)"
  by code_simp

lemma ex_lookup3: "lookup ex_computation 3 = Some (ex_instr kAllGather [2])"
  by (simp add: lookup_def ex_computation_def)

lemma ex_lookup5: "lookup ex_computation 5 = Some (ex_instr kAllToAll [4])"
  by (simp add: lookup_def ex_computation_def)

lemma ex_permute4_wf: "wf_computation ex_permute4"
  by (simp add: wf_computation_def ex_permute4_def)

lemma ex_permute4_lookup:
  "lookup ex_permute4 4 =
     Some ((ex_instr kCollectivePermute [0, 1, 2, 3]) \<lparr> dynamic_slice_sizes_list := [[4], [2, 2]] \<rparr>)"
  by (simp add: lookup_def ex_permute4_def)

lemma ex_operands_in:
  "operands_in ex_computation (ex_instr kAllReduce [0, 1])"
  "operands_in ex_computation (ex_instr kAllGather [2])"
  "operands_in ex_computation (ex_instr kCollectivePermute [3])"
  "operands_in ex_computation (ex_instr kAllToAll [4])"
  by (simp_all add: operands_in_def lookup_def ex_computation_def ex_instr_def new_instruction_def)

lemma ex_permute4_operands_in:
  "operands_in ex_permute4
     ((ex_instr kCollectivePermute [0, 1, 2, 3]) \<lparr> dynamic_slice_sizes_list := [[4], [2, 2]] \<rparr>)"
  by (simp add: operands_in_def lookup_def ex_permute4_def ex_instr_def new_instruction_def)

section \<open>The claims\<close>

text \<open>
  Claim C1. Let Run succeed, and take a processed computation whose instructions of the
  four kinds the configured predicates all accept. For each of the four kinds, no
  instruction of the kind is left in it, and it has as many more start instructions of the
  kind, and as many more done instructions of the kind, as it had instructions of the kind:
  one start and one done for each. The done of a collective permute is the
  collective-permute-done or, in split-tracking mode, the recv-done custom call, and split
  tracking adds one send-done for every recv-done.
\<close>

theorem every_collective_replaced_by_one_start_and_one_done:
  assumes wf: "wf_module m" and run: "Run cfg env m execution_threads = (Inr changed, m')"
    and k: "k \<in> set (MakeNonfusionComputations m execution_threads)"
    and c: "map_of (computations m) k = Some c"
    and acc: "accepts_every_collective cfg c"
    and kind: "is_sync kind"
  shows "\<exists>c'. map_of (computations m') k = Some c' \<and>
           count_instr (\<lambda>ins. opcode ins = kind) c' = 0 \<and>
           count_instr (is_start_for kind) c' =
             count_instr (is_start_for kind) c + count_instr (\<lambda>ins. opcode ins = kind) c \<and>
           count_instr (is_done_for kind) c' =
             count_instr (is_done_for kind) c + count_instr (\<lambda>ins. opcode ins = kind) c \<and>
           count_instr is_send_done c' + count_instr is_recv_done c =
             count_instr is_send_done c + count_instr is_recv_done c'"
proof -
  from Run_entry [OF wf run k c] obtain ch1 ch2 rp c' where
    loop: "rewrite_loop cfg env (has_schedule m \<and> map_of (sequences m) k \<noteq> None)
       (supported_collectives cfg c) c Map.empty ch1 = (Inr (rp, ch2), c')"
    and c': "map_of (computations m') k = Some c'"
    by blast
  have wfc: "wf_computation c" using wf c by (rule wf_module_lookup)
  from loop_counts [OF wfc acc loop kind] loop_send_recv [OF wfc acc loop] c'
  show ?thesis by blast
qed

text \<open>
  Claim C1 on the example module and the all-reduce kind: one all-reduce before, none
  after, and one all-reduce-start and one all-reduce-done instead.
\<close>

theorem every_collective_replaced_by_one_start_and_one_done_witness:
  "wf_module ex_module \<and> fst (Run accept_all no_failure ex_module {}) = Inr True \<and>
   0 \<in> set (MakeNonfusionComputations ex_module {}) \<and>
   map_of (computations ex_module) 0 = Some ex_computation \<and>
   accepts_every_collective accept_all ex_computation \<and> is_sync kAllReduce \<and>
   count_instr (\<lambda>ins. opcode ins = kAllReduce) ex_computation = 1 \<and>
   (\<exists>c'. map_of (computations (snd (Run accept_all no_failure ex_module {}))) 0 = Some c' \<and>
      count_instr (\<lambda>ins. opcode ins = kAllReduce) c' = 0 \<and>
      count_instr (is_start_for kAllReduce) c' = 1 \<and>
      count_instr (is_done_for kAllReduce) c' = 1)"
proof -
  have k: "0 \<in> set (MakeNonfusionComputations ex_module {})" by (simp add: ex_eligible)
  have s: "is_sync kAllReduce" by (simp add: is_sync_def)
  from every_collective_replaced_by_one_start_and_one_done
    [OF ex_module_wf ex_run_eq k ex_comp0 ex_accepts s]
  show ?thesis using ex_module_wf ex_run_fst k ex_comp0 ex_accepts s ex_counts by auto
qed

text \<open>
  Claim C2, as amended. For a candidate collective permute with exactly four operands
  whose operand shapes make the shape inference fail, the failure is not returned: its
  result is taken with \<^verbatim>\<open>.value()\<close>, which ends the process. This happens before any graph
  edit for this candidate, so the rewrite of the candidate leaves the computation as it
  found it; when the candidate is the first of its computation the module is unchanged at
  the abort, and when that computation is the first processed one, so it is for Run.
\<close>

theorem shape_inference_failure_is_fatal:
  assumes k: "map_of (computations m) k = Some c"
    and x: "lookup c x = Some cp" and cp: "opcode cp = kCollectivePermute"
    and four: "operand_count cp = 4"
    and shapes: "those (map (shape_of c) (operands cp)) = Some operand_shapes"
    and fail: "InferCollectivePermuteStartShape env operand_shapes = Inl msg"
  shows "rewrite_collective cfg env c x = (Inl (BadStatusOrAccess msg), c) \<and>
         is_fatal (BadStatusOrAccess msg) \<and>
         (supported_collectives cfg c = x # xs \<longrightarrow>
            process_computation cfg env m k changed = (Inl (BadStatusOrAccess msg), m) \<and>
            (MakeNonfusionComputations m execution_threads = k # ks \<longrightarrow>
               Run cfg env m execution_threads = (Inl (BadStatusOrAccess msg), m)))"
proof -
  have ne: "operands cp \<noteq> []" using four by (auto simp: operand_count_def)
  have s: "collective_permute_start env c cp = (Inl (BadStatusOrAccess msg), c)"
    using four shapes fail ne
    by (cases "operands cp") (simp_all add: collective_permute_start_def del: those.simps)
  have step: "rewrite_collective cfg env c x = (Inl (BadStatusOrAccess msg), c)"
    using s by (simp add: rewrite_collective_cp [OF x cp] rewrite_collective_permute_def)
  have p: "process_computation cfg env m k ch = (Inl (BadStatusOrAccess msg), m)"
    if "supported_collectives cfg c = x # xs" for ch
  proof -
    have "process_computation cfg env m k ch = (Inl (BadStatusOrAccess msg), set_computation m k c)"
      using k that step by (simp add: process_computation_def)
    then show ?thesis using set_computation_same [OF k] by simp
  qed
  have r: "Run cfg env m execution_threads = (Inl (BadStatusOrAccess msg), m)"
    if "supported_collectives cfg c = x # xs" "MakeNonfusionComputations m execution_threads = k # ks"
    using p [OF that(1), of False] that(2) by (simp add: Run_def)
  show ?thesis using step p r by simp
qed

text \<open>
  The amended claim C2 on the module whose only computation holds one collective permute
  with four operands, with a shape inference that fails.
\<close>

theorem shape_inference_failure_is_fatal_witness:
  "map_of (computations ex_permute4_module) 0 = Some ex_permute4 \<and>
   supported_collectives accept_all ex_permute4 = [4] \<and>
   MakeNonfusionComputations ex_permute4_module {} = [0] \<and>
   operand_count ((ex_instr kCollectivePermute [0, 1, 2, 3]) \<lparr> dynamic_slice_sizes_list := [[4], [2, 2]] \<rparr>) = 4 \<and>
   InferCollectivePermuteStartShape failing_inference
     [ArrayShape F32 [8], ArrayShape F32 [8], ArrayShape F32 [8], ArrayShape F32 [8]] =
     Inl ''inconsistent operand shapes'' \<and>
   rewrite_collective accept_all failing_inference ex_permute4 4 =
     (Inl (BadStatusOrAccess ''inconsistent operand shapes''), ex_permute4) \<and>
   is_fatal (BadStatusOrAccess ''inconsistent operand shapes'') \<and>
   Run accept_all failing_inference ex_permute4_module {} =
     (Inl (BadStatusOrAccess ''inconsistent operand shapes''), ex_permute4_module)"
proof -
  let ?cp = "(ex_instr kCollectivePermute [0, 1, 2, 3]) \<lparr> dynamic_slice_sizes_list := [[4], [2, 2]] \<rparr>"
  let ?shapes = "[ArrayShape F32 [8], ArrayShape F32 [8], ArrayShape F32 [8], ArrayShape F32 [8]]"
  have k: "map_of (computations ex_permute4_module) 0 = Some ex_permute4"
    by (simp add: ex_permute4_module_def)
  have x: "lookup ex_permute4 4 = Some ?cp" by (simp add: lookup_def ex_permute4_def)
  have cp: "opcode ?cp = kCollectivePermute" by (simp add: ex_instr_def new_instruction_def)
  have four: "operand_count ?cp = 4" by (simp add: ex_instr_def new_instruction_def operand_count_def)
  have shapes: "those (map (shape_of ex_permute4) (operands ?cp)) = Some ?shapes"
    by (simp add: shape_of_def lookup_def ex_permute4_def ex_instr_def new_instruction_def)
  have fail: "InferCollectivePermuteStartShape failing_inference ?shapes = Inl ''inconsistent operand shapes''"
    by (simp add: failing_inference_def)
  have first: "supported_collectives accept_all ex_permute4 = [4]" by code_simp
  have comps: "MakeNonfusionComputations ex_permute4_module {} = [0]"
    by (simp add: MakeNonfusionComputations_def ex_permute4_module_def ex_permute4_def)
  note t = shape_inference_failure_is_fatal [OF k x cp four shapes fail,
      of accept_all "[]" False "{}" "[]"]
  have t1: "rewrite_collective accept_all failing_inference ex_permute4 4 =
     (Inl (BadStatusOrAccess ''inconsistent operand shapes''), ex_permute4)"
    using t by blast
  have t2: "is_fatal (BadStatusOrAccess ''inconsistent operand shapes'')" by simp
  have t3: "Run accept_all failing_inference ex_permute4_module {} =
     (Inl (BadStatusOrAccess ''inconsistent operand shapes''), ex_permute4_module)"
    using t first comps by blast
  show ?thesis by (intro conjI) (rule k first comps four fail t1 t2 t3)+
qed

text \<open>
  Claim C2 as stated fails. On the module with one four-operand collective permute and a
  failing shape inference, Run does not return a failure, it aborts; and on the module
  where an all-reduce comes before such a permute, the all-reduce (instruction 4) is
  already replaced by the start 6 and the done 7 when Run aborts.
\<close>

theorem shape_inference_failure_is_returned_counterexample:
  "fst (Run accept_all failing_inference ex_permute4_module {}) =
     Inl (BadStatusOrAccess ''inconsistent operand shapes'') \<and>
   is_fatal (BadStatusOrAccess ''inconsistent operand shapes'') \<and>
   fst (Run accept_all failing_inference ex_reduce_permute4_module {}) =
     Inl (BadStatusOrAccess ''inconsistent operand shapes'') \<and>
   map (\<lambda>(k, c). map fst (instructions c)) (computations ex_reduce_permute4_module) =
     [[0, 1, 2, 3, 4, 5]] \<and>
   map (\<lambda>(k, c). map fst (instructions c))
     (computations (snd (Run accept_all failing_inference ex_reduce_permute4_module {}))) =
     [[0, 1, 2, 3, 5, 6, 7]]"
  by code_simp

text \<open>
  Claim C3. Let Run succeed on a module with a schedule, and take a processed computation
  that the schedule covers, with a sequence that names each of its instructions once. The
  new sequence is longer by the number of replaced instructions, the unreplaced
  instructions keep their relative order, and every instruction of the old sequence has
  its slot in the new one (moved by the replacements before it): an unreplaced
  instruction stands there itself, and for a replaced one the start stands there and its
  done right after it.
\<close>

theorem schedule_follows_the_replacements:
  assumes wf: "wf_module m" and run: "Run cfg env m execution_threads = (Inr changed, m')"
    and k: "k \<in> set (MakeNonfusionComputations m execution_threads)"
    and c: "map_of (computations m) k = Some c"
    and sched: "has_schedule m" and seq: "map_of (sequences m) k = Some sequence"
    and sync: "distinct sequence" "set sequence = set (map fst (instructions c))"
  shows "\<exists>c' sequence'.
           map_of (computations m') k = Some c' \<and> map_of (sequences m') k = Some sequence' \<and>
           length sequence' = length sequence + length (supported_collectives cfg c) \<and>
           filter (\<lambda>i. i \<in> set sequence \<and> i \<notin> set (supported_collectives cfg c)) sequence' =
             filter (\<lambda>i. i \<notin> set (supported_collectives cfg c)) sequence \<and>
           (\<forall>j < length sequence.
              if sequence ! j \<in> set (supported_collectives cfg c)
              then \<exists>ins pair. lookup c (sequence ! j) = Some ins \<and> replaces c' ins pair \<and>
                     sequence' ! new_slot (supported_collectives cfg c) sequence j = start pair \<and>
                     sequence' ! Suc (new_slot (supported_collectives cfg c) sequence j) = done_instr pair
              else sequence' ! new_slot (supported_collectives cfg c) sequence j = sequence ! j)"
proof -
  let ?xs = "supported_collectives cfg c"
  from Run_entry [OF wf run k c] sched seq obtain ch1 ch2 rp c' where
    loop: "rewrite_loop cfg env True ?xs c Map.empty ch1 = (Inr (rp, ch2), c')"
    and c': "map_of (computations m') k = Some c'"
    and s': "map_of (sequences m') k = Some (new_sequence rp sequence)"
    by auto
  have wfc: "wf_computation c" using wf c by (rule wf_module_lookup)
  note inv = candidates_inv [OF wfc, of cfg]
  from loop_pairs [OF inv loop]
  have out: "\<And>i. i \<notin> set ?xs \<Longrightarrow> rp i = None"
    and pairs: "\<And>x. x \<in> set ?xs \<Longrightarrow> \<exists>pair ins. rp x = Some pair \<and> lookup c x = Some ins \<and>
       next_id c \<le> start pair \<and> done_instr pair < next_id c' \<and> replaces c' ins pair"
    by auto
  have dom: "(rp i \<noteq> None) = (i \<in> set ?xs)" for i
    using out [of i] pairs [of i] by (cases "i \<in> set ?xs") auto
  have dom': "(rp i = None) = (i \<notin> set ?xs)" for i using dom [of i] by (cases "rp i") auto
  have sub: "set ?xs \<subseteq> set sequence"
    unfolding sync(2) supported_collectives_def by auto
  have "length (filter (\<lambda>i. i \<in> set ?xs) sequence) = card (set ?xs)"
  proof -
    have "set (filter (\<lambda>i. i \<in> set ?xs) sequence) = set ?xs" using sub by auto
    moreover have "distinct (filter (\<lambda>i. i \<in> set ?xs) sequence)" using sync(1) by simp
    ultimately show ?thesis by (metis distinct_card)
  qed
  moreover have "card (set ?xs) = length ?xs" using inv by (simp add: loop_inv_def distinct_card)
  ultimately have len: "length (new_sequence rp sequence) = length sequence + length ?xs"
    unfolding length_new_sequence dom by simp
  have fresh: "\<forall>i p. rp i = Some p \<longrightarrow> start p \<notin> set sequence \<and> done_instr p \<notin> set sequence"
  proof (intro allI impI)
    fix i p assume p: "rp i = Some p"
    then have "i \<in> set ?xs" using dom [of i] by simp
    from pairs [OF this] p have n: "next_id c \<le> start p" "done_instr p = Suc (start p)"
      by (auto simp: replaces_def)
    have "\<forall>j \<in> set sequence. j < next_id c" using wfc unfolding sync(2) wf_computation_def by simp
    then show "start p \<notin> set sequence \<and> done_instr p \<notin> set sequence" using n by auto
  qed
  from untouched_order [OF fresh, of sequence]
  have "filter (\<lambda>i. i \<in> set sequence \<and> rp i = None) (new_sequence rp sequence) =
        filter (\<lambda>i. i \<in> set sequence \<and> rp i = None) sequence" .
  also have "\<dots> = filter (\<lambda>i. rp i = None) sequence" by (rule filter_cong) auto
  finally have order: "filter (\<lambda>i. i \<in> set sequence \<and> i \<notin> set ?xs) (new_sequence rp sequence) =
             filter (\<lambda>i. i \<notin> set ?xs) sequence"
    unfolding dom' .
  have slots: "if sequence ! j \<in> set ?xs
              then \<exists>ins pair. lookup c (sequence ! j) = Some ins \<and> replaces c' ins pair \<and>
                     new_sequence rp sequence ! new_slot ?xs sequence j = start pair \<and>
                     new_sequence rp sequence ! Suc (new_slot ?xs sequence j) = done_instr pair
              else new_sequence rp sequence ! new_slot ?xs sequence j = sequence ! j"
    if j: "j < length sequence" for j
  proof (cases "sequence ! j \<in> set ?xs")
    case True
    from pairs [OF True] obtain pair ins where p: "rp (sequence ! j) = Some pair"
      "lookup c (sequence ! j) = Some ins" "replaces c' ins pair" by blast
    from new_sequence_slot [OF j, of rp] p(1)
    have "new_sequence rp sequence ! new_slot ?xs sequence j = start pair \<and>
          new_sequence rp sequence ! Suc (new_slot ?xs sequence j) = done_instr pair"
      unfolding new_slot_def dom by simp
    then show ?thesis using True p(2,3) by auto
  next
    case False
    then have "rp (sequence ! j) = None" by (rule out)
    with new_sequence_slot [OF j, of rp]
    have "new_sequence rp sequence ! new_slot ?xs sequence j = sequence ! j"
      unfolding new_slot_def dom by simp
    then show ?thesis using False by simp
  qed
  show ?thesis
  proof (intro exI conjI)
    show "map_of (computations m') k = Some c'" by fact
    show "map_of (sequences m') k = Some (new_sequence rp sequence)" by fact
    show "length (new_sequence rp sequence) = length sequence + length ?xs" by fact
    show "filter (\<lambda>i. i \<in> set sequence \<and> i \<notin> set ?xs) (new_sequence rp sequence) =
             filter (\<lambda>i. i \<notin> set ?xs) sequence" by fact
    show "\<forall>j < length sequence.
              if sequence ! j \<in> set ?xs
              then \<exists>ins pair. lookup c (sequence ! j) = Some ins \<and> replaces c' ins pair \<and>
                     new_sequence rp sequence ! new_slot ?xs sequence j = start pair \<and>
                     new_sequence rp sequence ! Suc (new_slot ?xs sequence j) = done_instr pair
              else new_sequence rp sequence ! new_slot ?xs sequence j = sequence ! j"
      by (intro allI impI) (rule slots)
  qed
qed

text \<open>
  Claim C3 on the example module: seven scheduled instructions, four replaced, eleven
  after the run; the all-reduce of slot 2 gives its start in slot 2 and its done in slot 3.
\<close>

theorem schedule_follows_the_replacements_witness:
  "wf_module ex_module \<and> fst (Run accept_all no_failure ex_module {}) = Inr True \<and>
   0 \<in> set (MakeNonfusionComputations ex_module {}) \<and>
   map_of (computations ex_module) 0 = Some ex_computation \<and>
   has_schedule ex_module \<and> map_of (sequences ex_module) 0 = Some [0, 1, 2, 3, 4, 5, 6] \<and>
   distinct [0, 1, 2, 3, 4, 5, 6 :: nat] \<and>
   set [0, 1, 2, 3, 4, 5, 6] = set (map fst (instructions ex_computation)) \<and>
   supported_collectives accept_all ex_computation = [2, 3, 4, 5] \<and>
   map_of (sequences (snd (Run accept_all no_failure ex_module {}))) 0 =
     Some [0, 1, 7, 8, 9, 10, 11, 12, 13, 14, 6] \<and>
   (\<exists>c' sequence'.
      map_of (computations (snd (Run accept_all no_failure ex_module {}))) 0 = Some c' \<and>
      map_of (sequences (snd (Run accept_all no_failure ex_module {}))) 0 = Some sequence' \<and>
      length sequence' = 7 + 4 \<and>
      filter (\<lambda>i. i \<in> set [0, 1, 2, 3, 4, 5, 6] \<and> i \<notin> set [2, 3, 4, 5]) sequence' = [0, 1, 6] \<and>
      (\<exists>ins pair. lookup ex_computation 2 = Some ins \<and> replaces c' ins pair \<and>
          sequence' ! 2 = start pair \<and> sequence' ! 3 = done_instr pair))"
proof -
  have k: "0 \<in> set (MakeNonfusionComputations ex_module {})" by (simp add: ex_eligible)
  have h: "has_schedule ex_module" by (simp add: ex_module_def)
  have cands: "supported_collectives accept_all ex_computation = [2, 3, 4, 5]" by code_simp
  have s': "map_of (sequences (snd (Run accept_all no_failure ex_module {}))) 0 =
     Some [0, 1, 7, 8, 9, 10, 11, 12, 13, 14, 6]" by code_simp
  have slot: "new_slot [2, 3, 4, 5] [0, 1, 2, 3, 4, 5, 6] 2 = 2" by (simp add: new_slot_def)
  from schedule_follows_the_replacements
    [OF ex_module_wf ex_run_eq k ex_comp0 h ex_seq0 ex_sync, unfolded cands]
  obtain c' sequence' where r:
    "map_of (computations (snd (Run accept_all no_failure ex_module {}))) 0 = Some c'"
    "map_of (sequences (snd (Run accept_all no_failure ex_module {}))) 0 = Some sequence'"
    "length sequence' = length [0, 1, 2, 3, 4, 5, 6 :: nat] + length [2, 3, 4, 5 :: nat]"
    "filter (\<lambda>i. i \<in> set [0, 1, 2, 3, 4, 5, 6] \<and> i \<notin> set [2, 3, 4, 5]) sequence' =
       filter (\<lambda>i. i \<notin> set [2, 3, 4, 5]) [0, 1, 2, 3, 4, 5, 6]"
    "\<forall>j < length [0, 1, 2, 3, 4, 5, 6 :: nat].
        if [0, 1, 2, 3, 4, 5, 6] ! j \<in> set [2, 3, 4, 5 :: nat]
        then \<exists>ins pair. lookup ex_computation ([0, 1, 2, 3, 4, 5, 6] ! j) = Some ins \<and> replaces c' ins pair \<and>
               sequence' ! new_slot [2, 3, 4, 5] [0, 1, 2, 3, 4, 5, 6] j = start pair \<and>
               sequence' ! Suc (new_slot [2, 3, 4, 5] [0, 1, 2, 3, 4, 5, 6] j) = done_instr pair
        else sequence' ! new_slot [2, 3, 4, 5] [0, 1, 2, 3, 4, 5, 6] j = [0, 1, 2, 3, 4, 5, 6] ! j"
    by blast
  from r(5) [rule_format, of 2] slot
  have two: "\<exists>ins pair. lookup ex_computation 2 = Some ins \<and> replaces c' ins pair \<and>
          sequence' ! 2 = start pair \<and> sequence' ! 3 = done_instr pair"
    by (simp add: numeral_3_eq_3)
  have ex: "\<exists>c' sequence'.
      map_of (computations (snd (Run accept_all no_failure ex_module {}))) 0 = Some c' \<and>
      map_of (sequences (snd (Run accept_all no_failure ex_module {}))) 0 = Some sequence' \<and>
      length sequence' = 7 + 4 \<and>
      filter (\<lambda>i. i \<in> set [0, 1, 2, 3, 4, 5, 6] \<and> i \<notin> set [2, 3, 4, 5]) sequence' = [0, 1, 6] \<and>
      (\<exists>ins pair. lookup ex_computation 2 = Some ins \<and> replaces c' ins pair \<and>
          sequence' ! 2 = start pair \<and> sequence' ! 3 = done_instr pair)"
    apply (rule exI [of _ c'], rule exI [of _ sequence'])
    using r(1-4) two by simp
  show ?thesis
    by (intro conjI) (rule ex_module_wf ex_run_fst k ex_comp0 h ex_seq0 ex_sync cands s' ex)+
qed

text \<open>
  Claim C4, as amended. The sequence the schedule patcher produces is one slot longer for
  every slot of the original sequence that holds a replaced instruction (not two): with a
  sequence that names every instruction once and covers every replaced instruction, its
  length is the original length plus the number of replaced instructions. The untouched
  instructions keep their relative order, the new start and done instructions being none
  of the scheduled ones.
\<close>

theorem patched_sequence_length_and_order:
  "length (new_sequence replaced_pairs sequence) =
     length sequence + length (filter (\<lambda>i. replaced_pairs i \<noteq> None) sequence) \<and>
   (distinct sequence \<and> dom replaced_pairs \<subseteq> set sequence \<longrightarrow>
      length (new_sequence replaced_pairs sequence) = length sequence + card (dom replaced_pairs)) \<and>
   ((\<forall>pair \<in> ran replaced_pairs. start pair \<notin> set sequence \<and> done_instr pair \<notin> set sequence) \<longrightarrow>
      filter (\<lambda>i. i \<in> set sequence \<and> replaced_pairs i = None) (new_sequence replaced_pairs sequence) =
      filter (\<lambda>i. replaced_pairs i = None) sequence)"
proof (intro conjI impI)
  show "length (new_sequence replaced_pairs sequence) =
     length sequence + length (filter (\<lambda>i. replaced_pairs i \<noteq> None) sequence)"
    by (rule length_new_sequence)
next
  assume "distinct sequence \<and> dom replaced_pairs \<subseteq> set sequence"
  then have "length (filter (\<lambda>i. replaced_pairs i \<noteq> None) sequence) = card (dom replaced_pairs)"
    by (intro replaced_slots_card) simp_all
  then show "length (new_sequence replaced_pairs sequence) = length sequence + card (dom replaced_pairs)"
    by (simp only: length_new_sequence)
next
  assume a: "\<forall>pair \<in> ran replaced_pairs. start pair \<notin> set sequence \<and> done_instr pair \<notin> set sequence"
  have "\<forall>i p. replaced_pairs i = Some p \<longrightarrow> start p \<notin> set sequence \<and> done_instr p \<notin> set sequence"
    using a by (auto simp: ran_def)
  from untouched_order [OF this, of sequence]
  have "filter (\<lambda>i. i \<in> set sequence \<and> replaced_pairs i = None) (new_sequence replaced_pairs sequence) =
        filter (\<lambda>i. i \<in> set sequence \<and> replaced_pairs i = None) sequence" .
  also have "\<dots> = filter (\<lambda>i. replaced_pairs i = None) sequence"
    by (rule filter_cong) auto
  finally show "filter (\<lambda>i. i \<in> set sequence \<and> replaced_pairs i = None) (new_sequence replaced_pairs sequence) =
      filter (\<lambda>i. replaced_pairs i = None) sequence" .
qed

text \<open>
  The amended claim C4 on a sequence of four instructions, the third replaced.
\<close>

theorem patched_sequence_length_and_order_witness:
  "distinct [0, 1, 2, 3 :: nat] \<and> dom ex_replaced_pairs \<subseteq> set [0, 1, 2, 3] \<and>
   new_sequence ex_replaced_pairs [0, 1, 2, 3] = [0, 1, 7, 8, 3] \<and>
   length (new_sequence ex_replaced_pairs [0, 1, 2, 3]) = length [0, 1, 2, 3 :: nat] + card (dom ex_replaced_pairs) \<and>
   card (dom ex_replaced_pairs) = 1 \<and>
   filter (\<lambda>i. i \<in> set [0, 1, 2, 3] \<and> ex_replaced_pairs i = None) (new_sequence ex_replaced_pairs [0, 1, 2, 3]) =
     filter (\<lambda>i. ex_replaced_pairs i = None) [0, 1, 2, 3]"
proof -
  have d: "distinct [0, 1, 2, 3 :: nat] \<and> dom ex_replaced_pairs \<subseteq> set [0, 1, 2, 3]"
    by (simp add: ex_replaced_pairs_def)
  have r: "\<forall>pair \<in> ran ex_replaced_pairs. start pair \<notin> set [0, 1, 2, 3] \<and> done_instr pair \<notin> set [0, 1, 2, 3]"
    by (simp add: ex_replaced_pairs_def)
  have n: "new_sequence ex_replaced_pairs [0, 1, 2, 3] = [0, 1, 7, 8, 3]"
    by (simp add: ex_replaced_pairs_def)
  have c: "card (dom ex_replaced_pairs) = 1"
    by (simp add: ex_replaced_pairs_def)
  from patched_sequence_length_and_order [of ex_replaced_pairs "[0, 1, 2, 3]"] d r n c
  show ?thesis by blast
qed

text \<open>
  Claim C4 as stated fails: the run on the example module replaces four of the seven
  scheduled instructions and leaves a schedule of eleven, not of fifteen.
\<close>

theorem schedule_grows_by_one_per_replacement_counterexample:
  "fst (Run accept_all no_failure ex_module {}) = Inr True \<and>
   map_of (sequences ex_module) 0 = Some [0, 1, 2, 3, 4, 5, 6] \<and>
   supported_collectives accept_all ex_computation = [2, 3, 4, 5] \<and>
   map_of (sequences (snd (Run accept_all no_failure ex_module {}))) 0 =
     Some [0, 1, 7, 8, 9, 10, 11, 12, 13, 14, 6] \<and>
   length [0, 1, 7, 8, 9, 10, 11, 12, 13, 14, 6 :: nat] \<noteq>
     length [0, 1, 2, 3, 4, 5, 6 :: nat] + 2 * length [2, 3, 4, 5 :: nat]"
  by code_simp

text \<open>
  Claim C5. In each of the four branches the start instruction of the pair carries the
  metadata and the backend configuration of the original. Whenever an iteration replaces
  a candidate, the start it records is in the computation, is the start of the
  candidate's kind, and has both fields of the original. And every branch does replace
  its candidate: for an instruction of one of the four kinds whose operands are in the
  computation (an all-gather with at least one operand; a collective permute with one
  operand, or with four and a shape the inference returns), the iteration succeeds when
  the replacement primitive and, for the all-to-all, the async-instruction constructor
  do not fail. (In the all-to-all branch the copy is made by the async-instruction
  constructor.)
\<close>

theorem start_carries_metadata_and_backend_config:
  assumes "wf_computation c" and "lookup c x = Some ins"
  shows "(\<forall>pair c'. rewrite_collective cfg env c x = (Inr (Some pair), c') \<longrightarrow>
            is_sync (opcode ins) \<and>
            (\<exists>S. lookup c' (start pair) = Some S \<and> is_start_for (opcode ins) S \<and>
                 metadata S = metadata ins \<and> backend_config S = backend_config ins)) \<and>
         (is_sync (opcode ins) \<and> operands_in c ins \<and>
          (opcode ins = kAllGather \<longrightarrow> operands ins \<noteq> []) \<and>
          (opcode ins = kCollectivePermute \<longrightarrow>
             operand_count ins = 1 \<or>
             (operand_count ins = 4 \<and>
              (\<exists>shp. InferCollectivePermuteStartShape env (operand_shapes_of c ins) = Inr shp))) \<and>
          (opcode ins = kAllToAll \<longrightarrow> CreateAsyncInstructions_failure env c x = None) \<and>
          (\<forall>c1 new. ReplaceInstruction_failure env c1 x new = None) \<longrightarrow>
          (\<exists>pair c'. rewrite_collective cfg env c x = (Inr (Some pair), c')))"
proof (intro conjI allI impI)
  fix pair c'
  assume r: "rewrite_collective cfg env c x = (Inr (Some pair), c')"
  from rewrite_collective_Inr [OF assms r]
  have sync: "is_sync (opcode ins)" and p: "start pair = next_id c" and sr: "step_result c x ins c'"
    by auto
  show "is_sync (opcode ins)" by (rule sync)
  from step_result_lookup_start [OF assms(1) sr] p
  show "\<exists>S. lookup c' (start pair) = Some S \<and> is_start_for (opcode ins) S \<and>
            metadata S = metadata ins \<and> backend_config S = backend_config ins"
    by (auto simp: is_start_for_def)
next
  assume a: "is_sync (opcode ins) \<and> operands_in c ins \<and>
          (opcode ins = kAllGather \<longrightarrow> operands ins \<noteq> []) \<and>
          (opcode ins = kCollectivePermute \<longrightarrow>
             operand_count ins = 1 \<or>
             (operand_count ins = 4 \<and>
              (\<exists>shp. InferCollectivePermuteStartShape env (operand_shapes_of c ins) = Inr shp))) \<and>
          (opcode ins = kAllToAll \<longrightarrow> CreateAsyncInstructions_failure env c x = None) \<and>
          (\<forall>c1 new. ReplaceInstruction_failure env c1 x new = None)"
  then have sync: "is_sync (opcode ins)" and ops: "operands_in c ins"
    and repl: "\<forall>c1 new. ReplaceInstruction_failure env c1 x new = None"
    by simp_all
  have lt: "x < next_id c" using assms by (rule wf_lookup_less)
  note shapes = those_operand_shapes [OF ops]
  consider (ar) "opcode ins = kAllReduce" | (ag) "opcode ins = kAllGather"
    | (cp) "opcode ins = kCollectivePermute" | (ata) "opcode ins = kAllToAll"
    using sync by (auto simp: is_sync_def)
  then show "\<exists>pair c'. rewrite_collective cfg env c x = (Inr (Some pair), c')"
  proof cases
    case ar
    have "\<exists>p c'. rewrite_all_reduce env c x ins = (Inr p, c')"
      using repl
      by (simp add: rewrite_all_reduce_def AddInstruction_eq ReplaceWithNewInstruction_def
          ReplaceInstruction_eq Let_def)
    then obtain p c' where "rewrite_all_reduce env c x ins = (Inr p, c')" by blast
    with ar assms(2) show ?thesis
      by (simp add: rewrite_collective_def)
  next
    case ag
    with a have "operands ins \<noteq> []" by simp
    then have "operand_shapes_of c ins \<noteq> []"
      using length_operand_shapes [OF ops] by auto
    then have "\<exists>p c'. rewrite_all_gather env c x ins = (Inr p, c')"
      using repl shapes
      by (simp add: rewrite_all_gather_def AddInstruction_eq ReplaceWithNewInstruction_def
          ReplaceInstruction_eq Let_def split: list.splits)
    then obtain p c' where "rewrite_all_gather env c x ins = (Inr p, c')" by blast
    with ag assms(2) show ?thesis
      by (simp add: rewrite_collective_def)
  next
    case cp
    with a have "operand_count ins = 1 \<or>
        (operand_count ins = 4 \<and>
         (\<exists>shp. InferCollectivePermuteStartShape env (operand_shapes_of c ins) = Inr shp))"
      by simp
    from collective_permute_start_succeeds [OF assms(1) ops this] obtain c1 where
      s: "collective_permute_start env c ins = (Inr (next_id c), c1)" and wf1: "wf_computation c1"
      by blast
    let ?c3 = "CopyBackendConfigFrom (set_metadata c1 (next_id c) (metadata ins)) (next_id c) ins"
    have "wf_computation ?c3"
      using wf1 by (simp add: set_metadata_def CopyBackendConfigFrom_def wf_modify)
    from collective_permute_done_succeeds [OF this] obtain d c4 where
      d: "collective_permute_done cfg ?c3 ins (next_id c) = (Inr d, c4)"
      by blast
    have "\<exists>p c'. rewrite_collective_permute cfg env c x ins = (Inr p, c')"
      using s d repl
      by (simp add: rewrite_collective_permute_def Let_def ReplaceInstruction_eq)
    then obtain p c' where "rewrite_collective_permute cfg env c x ins = (Inr p, c')" by blast
    with cp assms(2) show ?thesis
      by (simp add: rewrite_collective_def)
  next
    case ata
    with a have f: "CreateAsyncInstructions_failure env c x = None" by simp
    have "\<exists>p c'. rewrite_all_to_all env c x = (Inr p, c')"
      using assms f repl lt shapes
      by (simp add: rewrite_all_to_all_def CreateAsyncInstructions_def AddInstruction_eq
          ReplaceInstruction_eq Let_def lookup_replaced lookup_added wf_added
          replace_operand_def new_instruction_def)
    then obtain p c' where "rewrite_all_to_all env c x = (Inr p, c')" by blast
    with ata assms(2) show ?thesis
      by (simp add: rewrite_collective_def)
  qed
qed

text \<open>
  Claim C5 on the all-reduce, the all-gather, the collective permute (also in
  split-tracking mode) and the all-to-all of the example computation, and on the
  collective permute with four operands.
\<close>

theorem start_carries_metadata_and_backend_config_witness:
  "wf_computation ex_computation \<and>
   wf_computation ex_permute4 \<and>
   (\<forall>c1 new x. ReplaceInstruction_failure no_failure c1 x new = None) \<and>
   (\<forall>c x. CreateAsyncInstructions_failure no_failure c x = None) \<and>
   (\<forall>shapes. InferCollectivePermuteStartShape no_failure shapes = Inr (TupleShape shapes)) \<and>
   lookup ex_computation 2 =
     Some (ex_instr kAllReduce [0, 1]) \<and>
   operands_in ex_computation
     (ex_instr kAllReduce [0, 1]) \<and>
   (\<exists>pair c'. rewrite_collective accept_all no_failure ex_computation 2 = (Inr (Some pair), c')) \<and>
   fst (rewrite_collective accept_all no_failure ex_computation 2) =
     Inr (Some \<lparr> start = 7, done_instr = 8 \<rparr>) \<and>
   (\<exists>S. lookup (snd (rewrite_collective accept_all no_failure ex_computation 2)) 7 = Some S \<and>
        is_start_for kAllReduce S \<and> metadata S = ''op'' \<and> backend_config S = ''cfg'') \<and>
   lookup ex_computation 3 =
     Some (ex_instr kAllGather [2]) \<and>
   operands_in ex_computation
     (ex_instr kAllGather [2]) \<and>
   operands (ex_instr kAllGather [2]) \<noteq> [] \<and>
   (\<exists>pair c'. rewrite_collective accept_all no_failure ex_computation 3 = (Inr (Some pair), c')) \<and>
   fst (rewrite_collective accept_all no_failure ex_computation 3) =
     Inr (Some \<lparr> start = 7, done_instr = 8 \<rparr>) \<and>
   (\<exists>S. lookup (snd (rewrite_collective accept_all no_failure ex_computation 3)) 7 = Some S \<and>
        is_start_for kAllGather S \<and> metadata S = ''op'' \<and> backend_config S = ''cfg'') \<and>
   lookup ex_computation 4 =
     Some (ex_instr kCollectivePermute [3]) \<and>
   operands_in ex_computation
     (ex_instr kCollectivePermute [3]) \<and>
   operand_count (ex_instr kCollectivePermute [3]) = 1 \<and>
   (\<exists>pair c'. rewrite_collective accept_all no_failure ex_computation 4 = (Inr (Some pair), c')) \<and>
   fst (rewrite_collective accept_all no_failure ex_computation 4) =
     Inr (Some \<lparr> start = 7, done_instr = 8 \<rparr>) \<and>
   (\<exists>S. lookup (snd (rewrite_collective accept_all no_failure ex_computation 4)) 7 = Some S \<and>
        is_start_for kCollectivePermute S \<and> metadata S = ''op'' \<and> backend_config S = ''cfg'') \<and>
   (\<exists>pair c'. rewrite_collective split_tracking no_failure ex_computation 4 = (Inr (Some pair), c')) \<and>
   fst (rewrite_collective split_tracking no_failure ex_computation 4) =
     Inr (Some \<lparr> start = 7, done_instr = 8 \<rparr>) \<and>
   (\<exists>S. lookup (snd (rewrite_collective split_tracking no_failure ex_computation 4)) 7 = Some S \<and>
        is_start_for kCollectivePermute S \<and> metadata S = ''op'' \<and> backend_config S = ''cfg'') \<and>
   lookup ex_permute4 4 =
     Some ((ex_instr kCollectivePermute [0, 1, 2, 3]) \<lparr> dynamic_slice_sizes_list := [[4], [2, 2]] \<rparr>) \<and>
   operands_in ex_permute4
     ((ex_instr kCollectivePermute [0, 1, 2, 3]) \<lparr> dynamic_slice_sizes_list := [[4], [2, 2]] \<rparr>) \<and>
   operand_count ((ex_instr kCollectivePermute [0, 1, 2, 3]) \<lparr> dynamic_slice_sizes_list := [[4], [2, 2]] \<rparr>) = 4 \<and>
   (\<exists>pair c'. rewrite_collective accept_all no_failure ex_permute4 4 = (Inr (Some pair), c')) \<and>
   fst (rewrite_collective accept_all no_failure ex_permute4 4) =
     Inr (Some \<lparr> start = 5, done_instr = 6 \<rparr>) \<and>
   (\<exists>S. lookup (snd (rewrite_collective accept_all no_failure ex_permute4 4)) 5 = Some S \<and>
        is_start_for kCollectivePermute S \<and> metadata S = ''op'' \<and> backend_config S = ''cfg'') \<and>
   lookup ex_computation 5 =
     Some (ex_instr kAllToAll [4]) \<and>
   operands_in ex_computation
     (ex_instr kAllToAll [4]) \<and>
   (\<exists>pair c'. rewrite_collective accept_all no_failure ex_computation 5 = (Inr (Some pair), c')) \<and>
   fst (rewrite_collective accept_all no_failure ex_computation 5) =
     Inr (Some \<lparr> start = 7, done_instr = 8 \<rparr>) \<and>
   (\<exists>S. lookup (snd (rewrite_collective accept_all no_failure ex_computation 5)) 7 = Some S \<and>
        is_start_for kAllToAll S \<and> metadata S = ''op'' \<and> backend_config S = ''cfg'')"
proof -
  have md: "metadata (ex_instr k ops) = ''op''" "backend_config (ex_instr k ops) = ''cfg''"
    "opcode (ex_instr k ops) = k" "operands (ex_instr k ops) = ops" for k ops
    by (simp_all add: ex_instr_def new_instruction_def)
  have col: "fst r = Inr (Some p) \<Longrightarrow> r = (Inr (Some p), snd r)"
    for r :: "(error + ReplacedAsync option) \<times> HloComputation" and p
    by (cases r) simp
  have step2: "fst (rewrite_collective accept_all no_failure ex_computation 2) =
      Inr (Some \<lparr> start = 7, done_instr = 8 \<rparr>)"
    by code_simp
  have step3: "fst (rewrite_collective accept_all no_failure ex_computation 3) =
      Inr (Some \<lparr> start = 7, done_instr = 8 \<rparr>)"
    by code_simp
  have step4: "fst (rewrite_collective accept_all no_failure ex_computation 4) =
      Inr (Some \<lparr> start = 7, done_instr = 8 \<rparr>)"
    by code_simp
  have step4s: "fst (rewrite_collective split_tracking no_failure ex_computation 4) =
      Inr (Some \<lparr> start = 7, done_instr = 8 \<rparr>)"
    by code_simp
  have step5: "fst (rewrite_collective accept_all no_failure ex_computation 5) =
      Inr (Some \<lparr> start = 7, done_instr = 8 \<rparr>)"
    by code_simp
  have stepp4: "fst (rewrite_collective accept_all no_failure ex_permute4 4) =
      Inr (Some \<lparr> start = 5, done_instr = 6 \<rparr>)"
    by code_simp
  have nf: "\<forall>c1 new x. ReplaceInstruction_failure no_failure c1 x new = None"
    "\<forall>c x. CreateAsyncInstructions_failure no_failure c x = None"
    "\<forall>shapes. InferCollectivePermuteStartShape no_failure shapes = Inr (TupleShape shapes)"
    by (simp_all add: no_failure_def)
  have c4: "operand_count ((ex_instr kCollectivePermute [0, 1, 2, 3]) \<lparr> dynamic_slice_sizes_list := [[4], [2, 2]] \<rparr>) = 4"
    "operand_count (ex_instr kCollectivePermute [3]) = 1"
    "operands (ex_instr kAllGather [2]) \<noteq> []"
    by (simp_all add: operand_count_def md)
  have s2: "\<exists>S. lookup (snd (rewrite_collective accept_all no_failure ex_computation 2)) 7 = Some S \<and>
        is_start_for kAllReduce S \<and> metadata S = ''op'' \<and> backend_config S = ''cfg''"
    using conjunct1 [OF start_carries_metadata_and_backend_config [OF ex_wf ex_lookup2],
        rule_format, OF col [OF step2]]
    by (simp add: md)
  have e2: "\<exists>pair c'. rewrite_collective accept_all no_failure ex_computation 2 = (Inr (Some pair), c')"
    using conjunct2 [OF start_carries_metadata_and_backend_config [OF ex_wf ex_lookup2],
        of no_failure accept_all]
      ex_operands_in(1) c4 nf
    by (simp add: md is_sync_def)
  have s3: "\<exists>S. lookup (snd (rewrite_collective accept_all no_failure ex_computation 3)) 7 = Some S \<and>
        is_start_for kAllGather S \<and> metadata S = ''op'' \<and> backend_config S = ''cfg''"
    using conjunct1 [OF start_carries_metadata_and_backend_config [OF ex_wf ex_lookup3],
        rule_format, OF col [OF step3]]
    by (simp add: md)
  have e3: "\<exists>pair c'. rewrite_collective accept_all no_failure ex_computation 3 = (Inr (Some pair), c')"
    using conjunct2 [OF start_carries_metadata_and_backend_config [OF ex_wf ex_lookup3],
        of no_failure accept_all]
      ex_operands_in(2) c4 nf
    by (simp add: md is_sync_def)
  have s4: "\<exists>S. lookup (snd (rewrite_collective accept_all no_failure ex_computation 4)) 7 = Some S \<and>
        is_start_for kCollectivePermute S \<and> metadata S = ''op'' \<and> backend_config S = ''cfg''"
    using conjunct1 [OF start_carries_metadata_and_backend_config [OF ex_wf ex_lookup4],
        rule_format, OF col [OF step4]]
    by (simp add: md)
  have e4: "\<exists>pair c'. rewrite_collective accept_all no_failure ex_computation 4 = (Inr (Some pair), c')"
    using conjunct2 [OF start_carries_metadata_and_backend_config [OF ex_wf ex_lookup4],
        of no_failure accept_all]
      ex_operands_in(3) c4 nf
    by (simp add: md is_sync_def)
  have s4s: "\<exists>S. lookup (snd (rewrite_collective split_tracking no_failure ex_computation 4)) 7 = Some S \<and>
        is_start_for kCollectivePermute S \<and> metadata S = ''op'' \<and> backend_config S = ''cfg''"
    using conjunct1 [OF start_carries_metadata_and_backend_config [OF ex_wf ex_lookup4],
        rule_format, OF col [OF step4s]]
    by (simp add: md)
  have e4s: "\<exists>pair c'. rewrite_collective split_tracking no_failure ex_computation 4 = (Inr (Some pair), c')"
    using conjunct2 [OF start_carries_metadata_and_backend_config [OF ex_wf ex_lookup4],
        of no_failure split_tracking]
      ex_operands_in(3) c4 nf
    by (simp add: md is_sync_def)
  have sp4: "\<exists>S. lookup (snd (rewrite_collective accept_all no_failure ex_permute4 4)) 5 = Some S \<and>
        is_start_for kCollectivePermute S \<and> metadata S = ''op'' \<and> backend_config S = ''cfg''"
    using conjunct1 [OF start_carries_metadata_and_backend_config [OF ex_permute4_wf ex_permute4_lookup],
        rule_format, OF col [OF stepp4]]
    by (simp add: md)
  have ep4: "\<exists>pair c'. rewrite_collective accept_all no_failure ex_permute4 4 = (Inr (Some pair), c')"
    using conjunct2 [OF start_carries_metadata_and_backend_config [OF ex_permute4_wf ex_permute4_lookup],
        of no_failure accept_all]
      ex_permute4_operands_in c4 nf
    by (simp add: md is_sync_def)
  have s5: "\<exists>S. lookup (snd (rewrite_collective accept_all no_failure ex_computation 5)) 7 = Some S \<and>
        is_start_for kAllToAll S \<and> metadata S = ''op'' \<and> backend_config S = ''cfg''"
    using conjunct1 [OF start_carries_metadata_and_backend_config [OF ex_wf ex_lookup5],
        rule_format, OF col [OF step5]]
    by (simp add: md)
  have e5: "\<exists>pair c'. rewrite_collective accept_all no_failure ex_computation 5 = (Inr (Some pair), c')"
    using conjunct2 [OF start_carries_metadata_and_backend_config [OF ex_wf ex_lookup5],
        of no_failure accept_all]
      ex_operands_in(4) c4 nf
    by (simp add: md is_sync_def)
  show ?thesis
    by (intro conjI) (rule ex_wf ex_permute4_wf nf ex_lookup2 ex_lookup3 ex_lookup4 ex_lookup5
        ex_permute4_lookup ex_operands_in ex_permute4_operands_in step2 step3 step4
        step5 step4s stepp4 c4 s2 e2 s3 e3 s4 e4 s4s e4s sp4 ep4 s5 e5)+
qed

text \<open>
  Claim C6. When the split-tracking predicate accepts a collective permute that is
  rewritten, the done of the pair is a recv-done custom call with the shape of the
  original, next to it stands a send-done custom call with the token shape, both read the
  new start and are marked as having side effects, a control edge leads from the
  recv-done to the send-done, the original is gone, and every other instruction has each
  operand that was the original replaced by the recv-done.
\<close>

theorem split_tracking_creates_recv_done_and_send_done:
  assumes wf: "wf_computation c" and x: "lookup c x = Some cp"
    and cp: "opcode cp = kCollectivePermute"
    and split: "track_send_recv_separately cfg cp"
    and r: "rewrite_collective cfg env c x = (Inr (Some pair), c')"
  shows "\<exists>S R T send_done.
           lookup c' (start pair) = Some S \<and> opcode S = kCollectivePermuteStart \<and>
           lookup c' (done_instr pair) = Some R \<and> opcode R = kCustomCall \<and>
           custom_call_target R = ''$cp_recv_done'' \<and> shape R = shape cp \<and>
           operands R = [start pair] \<and> custom_call_has_side_effect R \<and>
           lookup c' send_done = Some T \<and> opcode T = kCustomCall \<and>
           custom_call_target T = ''$cp_send_done'' \<and> shape T = TokenShape \<and>
           operands T = [start pair] \<and> custom_call_has_side_effect T \<and>
           control_successors R = [send_done] \<and> control_predecessors T = [done_instr pair] \<and>
           lookup c' x = None \<and>
           (\<forall>u user. u \<noteq> x \<and> lookup c u = Some user \<longrightarrow>
              lookup c' u = Some (replace_operand x (done_instr pair) user))"
proof -
  have lt: "x < next_id c" using wf x by (rule wf_lookup_less)
  obtain p where p: "rewrite_collective_permute cfg env c x cp = (Inr p, c')" "pair = p"
    using r rewrite_collective_cp [OF x cp, of cfg env]
    by (auto split: prod.splits sum.splits)
  from rewrite_collective_permute_Inr [OF wf lt p(1)] split obtain S where S:
    "p = \<lparr> start = next_id c, done_instr = Suc (next_id c) \<rparr>"
    "opcode S = kCollectivePermuteStart"
    "c' = added (added (added (replaced c x (Suc (next_id c))) S)
                         (cp_recv_done_instr cp (next_id c) (Suc (Suc (next_id c)))))
                         (cp_send_done_instr (next_id c) (Suc (next_id c)))"
    by auto
  have old: "lookup c' u = Some (replace_operand x (done_instr pair) user)"
    if "u \<noteq> x \<and> lookup c u = Some user" for u user
  proof -
    have "u < next_id c" using wf that by (auto intro: wf_lookup_less)
    then show ?thesis using that S(1,3) p(2) wf by (simp add: lookup_added3)
  qed
  show ?thesis
    apply (rule exI [of _ S])
    apply (rule exI [of _ "cp_recv_done_instr cp (next_id c) (Suc (Suc (next_id c)))"])
    apply (rule exI [of _ "cp_send_done_instr (next_id c) (Suc (next_id c))"])
    apply (rule exI [of _ "Suc (Suc (next_id c))"])
    using S p(2) wf lt old
    by (simp add: lookup_added3 cp_recv_done_instr_def cp_send_done_instr_def CreateCustomCall_def
        new_instruction_def MakeTokenShape_def)
qed

text \<open>
  Claim C6 on the collective permute of the example computation, whose user, the
  all-to-all, reads the recv-done afterwards.
\<close>

theorem split_tracking_creates_recv_done_and_send_done_witness:
  "wf_computation ex_computation \<and> lookup ex_computation 4 = Some (ex_instr kCollectivePermute [3]) \<and>
   track_send_recv_separately split_tracking (ex_instr kCollectivePermute [3]) \<and>
   fst (rewrite_collective split_tracking no_failure ex_computation 4) =
     Inr (Some \<lparr> start = 7, done_instr = 8 \<rparr>) \<and>
   lookup ex_computation 5 = Some (ex_instr kAllToAll [4]) \<and>
   lookup (snd (rewrite_collective split_tracking no_failure ex_computation 4)) 5 =
     Some (ex_instr kAllToAll [8]) \<and>
   (\<exists>S R T send_done.
      lookup (snd (rewrite_collective split_tracking no_failure ex_computation 4)) 7 = Some S \<and>
      opcode S = kCollectivePermuteStart \<and>
      lookup (snd (rewrite_collective split_tracking no_failure ex_computation 4)) 8 = Some R \<and>
      opcode R = kCustomCall \<and> custom_call_target R = ''$cp_recv_done'' \<and>
      shape R = ArrayShape F32 [8] \<and> operands R = [7] \<and> custom_call_has_side_effect R \<and>
      lookup (snd (rewrite_collective split_tracking no_failure ex_computation 4)) send_done = Some T \<and>
      opcode T = kCustomCall \<and> custom_call_target T = ''$cp_send_done'' \<and> shape T = TokenShape \<and>
      operands T = [7] \<and> custom_call_has_side_effect T \<and>
      control_successors R = [send_done] \<and> control_predecessors T = [8] \<and>
      lookup (snd (rewrite_collective split_tracking no_failure ex_computation 4)) 4 = None)"
proof -
  let ?c' = "snd (rewrite_collective split_tracking no_failure ex_computation 4)"
  have r: "rewrite_collective split_tracking no_failure ex_computation 4 =
      (Inr (Some \<lparr> start = 7, done_instr = 8 \<rparr>), ?c')"
    using ex_split_step by (metis prod.collapse)
  have cp: "opcode (ex_instr kCollectivePermute [3]) = kCollectivePermute"
    by (simp add: ex_instr_def new_instruction_def)
  have split: "track_send_recv_separately split_tracking (ex_instr kCollectivePermute [3])"
    by (simp add: split_tracking_def)
  have l5: "lookup ex_computation 5 = Some (ex_instr kAllToAll [4])"
    by (simp add: lookup_def ex_computation_def)
  from split_tracking_creates_recv_done_and_send_done [OF ex_wf ex_lookup4 cp split r]
  obtain S R T send_done where a:
    "lookup ?c' 7 = Some S" "opcode S = kCollectivePermuteStart"
    "lookup ?c' 8 = Some R" "opcode R = kCustomCall" "custom_call_target R = ''$cp_recv_done''"
    "shape R = shape (ex_instr kCollectivePermute [3])" "operands R = [7]" "custom_call_has_side_effect R"
    "lookup ?c' send_done = Some T" "opcode T = kCustomCall" "custom_call_target T = ''$cp_send_done''"
    "shape T = TokenShape" "operands T = [7]" "custom_call_has_side_effect T"
    "control_successors R = [send_done]" "control_predecessors T = [8]"
    "lookup ?c' 4 = None"
    and users: "\<forall>u user. u \<noteq> 4 \<and> lookup ex_computation u = Some user \<longrightarrow>
              lookup ?c' u = Some (replace_operand 4 8 user)"
    by auto
  have u5: "lookup ?c' 5 = Some (ex_instr kAllToAll [8])"
    using users [rule_format, of 5 "ex_instr kAllToAll [4]"] l5
    by (simp add: replace_operand_def ex_instr_def new_instruction_def)
  have sh: "shape R = ArrayShape F32 [8]" using a(6) by (simp add: ex_instr_def new_instruction_def)
  have ex: "\<exists>S R T send_done.
      lookup ?c' 7 = Some S \<and> opcode S = kCollectivePermuteStart \<and>
      lookup ?c' 8 = Some R \<and>
      opcode R = kCustomCall \<and> custom_call_target R = ''$cp_recv_done'' \<and>
      shape R = ArrayShape F32 [8] \<and> operands R = [7] \<and> custom_call_has_side_effect R \<and>
      lookup ?c' send_done = Some T \<and>
      opcode T = kCustomCall \<and> custom_call_target T = ''$cp_send_done'' \<and> shape T = TokenShape \<and>
      operands T = [7] \<and> custom_call_has_side_effect T \<and>
      control_successors R = [send_done] \<and> control_predecessors T = [8] \<and>
      lookup ?c' 4 = None"
    using a sh by blast
  show ?thesis
    by (intro conjI) (rule ex_wf ex_lookup4 split ex_split_step l5 u5 ex)+
qed

text \<open>
  Claim C7. A computation in which no instruction is a supported collective accepted by
  its predicate is the same after Run as before, and so is its sequence, whatever Run
  returns. Its processing does not look at the schedule: with any schedule flag and any
  sequences in the module, it returns the module and the flag as they are.
\<close>

theorem computation_without_candidates_is_untouched:
  assumes c: "map_of (computations m) k = Some c" and none: "supported_collectives cfg c = []"
  shows "map_of (computations (snd (Run cfg env m execution_threads))) k = Some c \<and>
         map_of (sequences (snd (Run cfg env m execution_threads))) k = map_of (sequences m) k \<and>
         (\<forall>scheduled seqs changed.
            process_computation cfg env (m \<lparr> has_schedule := scheduled, sequences := seqs \<rparr>) k changed =
              (Inr changed, m \<lparr> has_schedule := scheduled, sequences := seqs \<rparr>))"
proof -
  obtain r m' where run: "Run cfg env m execution_threads = (r, m')"
    by (cases "Run cfg env m execution_threads")
  from Run_loop_untouched [OF c none run [unfolded Run_def]]
  have "map_of (computations m') k = Some c \<and> map_of (sequences m') k = map_of (sequences m) k"
    by simp
  moreover have "process_computation cfg env (m \<lparr> has_schedule := h, sequences := s \<rparr>) k ch =
              (Inr ch, m \<lparr> has_schedule := h, sequences := s \<rparr>)" for h s ch
    by (rule process_computation_no_candidates [OF _ none]) (simp add: c)
  ultimately show ?thesis using run by simp
qed

text \<open>
  Claim C7 on the module of two computations, the second without any collective: the run
  changes the module and leaves the second computation and its sequence.
\<close>

theorem computation_without_candidates_is_untouched_witness:
  "map_of (computations ex_two_module) 1 = Some ex_plain \<and>
   supported_collectives accept_all ex_plain = [] \<and>
   fst (Run accept_all no_failure ex_two_module {}) = Inr True \<and>
   map_of (computations (snd (Run accept_all no_failure ex_two_module {}))) 1 = Some ex_plain \<and>
   map_of (sequences (snd (Run accept_all no_failure ex_two_module {}))) 1 = Some [0, 1] \<and>
   process_computation accept_all no_failure (ex_two_module \<lparr> has_schedule := False, sequences := [] \<rparr>) 1 False =
     (Inr False, ex_two_module \<lparr> has_schedule := False, sequences := [] \<rparr>)"
proof -
  have c: "map_of (computations ex_two_module) 1 = Some ex_plain" by (simp add: ex_two_module_def)
  have n: "supported_collectives accept_all ex_plain = []" by code_simp
  have f: "fst (Run accept_all no_failure ex_two_module {}) = Inr True" by code_simp
  have s: "map_of (sequences ex_two_module) 1 = Some [0, 1]" by (simp add: ex_two_module_def)
  note t = computation_without_candidates_is_untouched [OF c n, of no_failure "{}"]
  have t1: "map_of (computations (snd (Run accept_all no_failure ex_two_module {}))) 1 = Some ex_plain"
    using t by blast
  have t2: "map_of (sequences (snd (Run accept_all no_failure ex_two_module {}))) 1 = Some [0, 1]"
    using t s by simp
  have t3: "process_computation accept_all no_failure (ex_two_module \<lparr> has_schedule := False, sequences := [] \<rparr>) 1 False =
     (Inr False, ex_two_module \<lparr> has_schedule := False, sequences := [] \<rparr>)"
    using t by blast
  show ?thesis by (intro conjI) (rule c n f t1 t2 t3)+
qed

text \<open>
  Claim C8. After a successful run with predicates that accept every instruction of the
  four kinds in the module, a second run with the same predicates, whatever the
  collaborators do, changes nothing and returns changed = false.
\<close>

theorem second_run_is_a_no_op:
  assumes wf: "wf_module m"
    and acc: "accepts_every_collective_in cfg m"
    and run: "Run cfg env m execution_threads = (Inr changed, m')"
  shows "Run cfg env2 m' execution_threads = (Inr False, m')"
proof -
  let ?ks = "MakeNonfusionComputations m execution_threads"
  note frame = Run_loop_frame [OF run [unfolded Run_def]]
  have keys: "map fst (computations m') = map fst (computations m)" using frame by simp
  have dist': "distinct (map fst (computations m'))" using wf keys by (simp add: wf_module_def)
  have "\<exists>c'. map_of (computations m') k = Some c' \<and> supported_collectives cfg c' = []"
    if k: "k \<in> set (MakeNonfusionComputations m' execution_threads)" for k
  proof -
    from k obtain c' where c': "(k, c') \<in> set (computations m')" "\<not> is_fusion c'"
      "execution_threads = {} \<or> execution_thread c' \<in> execution_threads"
      unfolding MakeNonfusionComputations_mem by blast
    have l': "map_of (computations m') k = Some c'" using dist' c'(1) by simp
    have "k \<in> fst ` set (computations m)" using c'(1) keys by (metis image_eqI fst_conv image_set)
    then obtain c where c: "map_of (computations m) k = Some c"
      by (metis domD dom_map_of_conv_image_fst)
    have mem: "(k, c) \<in> set (computations m)" using c by (rule map_of_SomeD)
    have wfc: "wf_computation c" using wf c by (rule wf_module_lookup)
    have accc: "accepts_every_collective cfg c"
      using acc mem by (auto simp: accepts_every_collective_in_def)
    show ?thesis
    proof (cases "k \<in> set ?ks")
      case True
      have "supported_collectives cfg c' = []"
      proof (rule no_sync_no_candidates)
        fix kind assume kind: "is_sync kind"
        from Run_entry [OF wf run True c] obtain ch1 ch2 rp c2 where
          loop: "rewrite_loop cfg env (has_schedule m \<and> map_of (sequences m) k \<noteq> None)
             (supported_collectives cfg c) c Map.empty ch1 = (Inr (rp, ch2), c2)"
          and c2: "map_of (computations m') k = Some c2"
          by blast
        from loop_counts(1) [OF wfc accc loop kind] c2 l'
        show "count_instr (\<lambda>ins. opcode ins = kind) c' = 0" by simp
      qed
      then show ?thesis using l' by simp
    next
      case False
      then have "map_of (computations m') k = map_of (computations m) k" using frame by simp
      then have "c' = c" using l' c by simp
      then have "k \<in> set ?ks" using mem c'(2,3) unfolding MakeNonfusionComputations_mem by blast
      then show ?thesis using False by simp
    qed
  qed
  then show ?thesis unfolding Run_def by (intro Run_loop_no_candidates) blast
qed

text \<open>
  Claim C8 on the example module: the first run changes it, the second does not.
\<close>

theorem second_run_is_a_no_op_witness:
  "wf_module ex_module \<and> accepts_every_collective_in accept_all ex_module \<and>
   fst (Run accept_all no_failure ex_module {}) = Inr True \<and>
   Run accept_all no_failure (snd (Run accept_all no_failure ex_module {})) {} =
     (Inr False, snd (Run accept_all no_failure ex_module {}))"
proof -
  from second_run_is_a_no_op [OF ex_module_wf ex_accepts_in ex_run_eq, of no_failure]
  show ?thesis using ex_module_wf ex_accepts_in ex_run_fst by simp
qed

text \<open>
  Claim C9. A candidate collective permute whose operand count is neither 1 nor 4 ends
  the pass fatally, with the computation untouched: by the failed
  \<^verbatim>\<open>CHECK_EQ(cp->operand_count(), 4)\<close> when it has operands at all (without any, the read of
  operand 0 before the check is already fatal). It is never a returned error. When every
  collective permute candidate with more than one operand has four, no run ends in this
  failed check.
\<close>

theorem operand_count_check_is_fatal_and_unreachable:
  "(lookup c x = Some cp \<and> opcode cp = kCollectivePermute \<and>
    operand_count cp \<noteq> 1 \<and> operand_count cp \<noteq> 4 \<longrightarrow>
      (\<exists>e. rewrite_collective cfg env c x = (Inl e, c) \<and> is_fatal e \<and>
           (0 < operand_count cp \<longrightarrow> e = CheckFailed (operand_count cp) 4))) \<and>
   (wf_module m \<and> permute_candidates_have_four cfg m execution_threads \<longrightarrow>
      (\<forall>a b. fst (Run cfg env m execution_threads) \<noteq> Inl (CheckFailed a b)))"
proof (intro conjI impI allI)
  assume "lookup c x = Some cp \<and> opcode cp = kCollectivePermute \<and>
    operand_count cp \<noteq> 1 \<and> operand_count cp \<noteq> 4"
  then show "\<exists>e. rewrite_collective cfg env c x = (Inl e, c) \<and> is_fatal e \<and>
           (0 < operand_count cp \<longrightarrow> e = CheckFailed (operand_count cp) 4)"
    using check_eq_operand_count [of c x cp cfg env] by simp
next
  fix a b
  assume h: "wf_module m \<and> permute_candidates_have_four cfg m execution_threads"
  let ?ks = "MakeNonfusionComputations m execution_threads"
  have d: "distinct ?ks" using h by (simp add: wf_module_def MakeNonfusionComputations_distinct)
  have ok: "\<forall>k \<in> set ?ks. \<forall>c. map_of (computations m) k = Some c \<longrightarrow>
      wf_computation c \<and> permutes_have_four c (supported_collectives cfg c)"
  proof (intro ballI allI impI)
    fix k c assume k: "k \<in> set ?ks" and c: "map_of (computations m) k = Some c"
    have wfc: "wf_computation c" using h c by (auto intro: wf_module_lookup)
    have "\<forall>(i, ins) \<in> set (instructions c).
        opcode ins = kCollectivePermute \<and> convert_collective_permute cfg ins \<and>
        1 < operand_count ins \<longrightarrow> operand_count ins = 4"
      using h k c unfolding permute_candidates_have_four_def by blast
    then show "wf_computation c \<and> permutes_have_four c (supported_collectives cfg c)"
      using wfc candidates_have_four by blast
  qed
  show "fst (Run cfg env m execution_threads) \<noteq> Inl (CheckFailed a b)"
  proof
    assume f: "fst (Run cfg env m execution_threads) = Inl (CheckFailed a b)"
    obtain m' where "Run_loop cfg env ?ks m False = (Inl (CheckFailed a b), m')"
      using f unfolding Run_def by (metis prod.collapse)
    from Run_loop_no_check [OF d ok this, of a b] show False by simp
  qed
qed

text \<open>
  Claim C9 on a collective permute with two operands, where the check fails, and on the
  module with a four-operand permute, where the run succeeds.
\<close>

theorem operand_count_check_is_fatal_and_unreachable_witness:
  "lookup ex_permute2 2 = Some (ex_instr kCollectivePermute [0, 1]) \<and>
   operand_count (ex_instr kCollectivePermute [0, 1]) = 2 \<and>
   rewrite_collective accept_all no_failure ex_permute2 2 = (Inl (CheckFailed 2 4), ex_permute2) \<and>
   is_fatal (CheckFailed 2 4) \<and>
   wf_module ex_permute4_module \<and> permute_candidates_have_four accept_all ex_permute4_module {} \<and>
   fst (Run accept_all no_failure ex_permute4_module {}) = Inr True \<and>
   (\<forall>a b. fst (Run accept_all no_failure ex_permute4_module {}) \<noteq> Inl (CheckFailed a b))"
proof -
  let ?cp = "ex_instr kCollectivePermute [0, 1]"
  have x: "lookup ex_permute2 2 = Some ?cp" by (simp add: lookup_def ex_permute2_def)
  have cp: "opcode ?cp = kCollectivePermute" by (simp add: ex_instr_def new_instruction_def)
  have n: "operand_count ?cp = 2" by (simp add: ex_instr_def new_instruction_def operand_count_def)
  have wf: "wf_module ex_permute4_module"
    by (simp add: wf_module_def wf_computation_def ex_permute4_module_def ex_permute4_def)
  have four: "permute_candidates_have_four accept_all ex_permute4_module {}"
    by (simp add: permute_candidates_have_four_def MakeNonfusionComputations_def
        ex_permute4_module_def ex_permute4_def ex_instr_def new_instruction_def operand_count_def)
  have ok: "fst (Run accept_all no_failure ex_permute4_module {}) = Inr True" by code_simp
  note t = operand_count_check_is_fatal_and_unreachable
    [of ex_permute2 2 ?cp accept_all no_failure ex_permute4_module "{}"]
  from t x cp n obtain e where e:
    "rewrite_collective accept_all no_failure ex_permute2 2 = (Inl e, ex_permute2)"
    "is_fatal e" "e = CheckFailed 2 4"
    by auto
  have t1: "rewrite_collective accept_all no_failure ex_permute2 2 = (Inl (CheckFailed 2 4), ex_permute2)"
    using e by simp
  have t2: "is_fatal (CheckFailed 2 4)" by simp
  have t3: "\<forall>a b. fst (Run accept_all no_failure ex_permute4_module {}) \<noteq> Inl (CheckFailed a b)"
    using t wf four by blast
  show ?thesis by (intro conjI) (rule x n t1 t2 wf four ok t3)+
qed

text \<open>
  Claim C10. The start instruction of a rewritten collective permute carries the disjoint
  read/write regions attribute exactly when the original has four operands and carries it:
  for a single-operand permute it never does, even when the original carries it.
\<close>

theorem disjoint_attr_only_in_four_operand_branch:
  assumes wf: "wf_computation c" and x: "lookup c x = Some cp"
    and cp: "opcode cp = kCollectivePermute"
    and r: "rewrite_collective cfg env c x = (Inr (Some pair), c')"
  shows "\<exists>S. lookup c' (start pair) = Some S \<and> opcode S = kCollectivePermuteStart \<and>
           (operand_count cp = 1 \<or> operand_count cp = 4) \<and>
           disjoint_read_write_regions S =
             (operand_count cp = 4 \<and> disjoint_read_write_regions cp)"
proof -
  have lt: "x < next_id c" using wf x by (rule wf_lookup_less)
  obtain p where p: "rewrite_collective_permute cfg env c x cp = (Inr p, c')" "pair = p"
    using r rewrite_collective_cp [OF x cp, of cfg env]
    by (auto split: prod.splits sum.splits)
  from rewrite_collective_permute_Inr [OF wf lt p(1)] obtain S where S:
    "p = \<lparr> start = next_id c, done_instr = Suc (next_id c) \<rparr>"
    "opcode S = kCollectivePermuteStart"
    "operand_count cp = 1 \<or> operand_count cp = 4"
    "disjoint_read_write_regions S = (operand_count cp \<noteq> 1 \<and> disjoint_read_write_regions cp)"
    "c' = (if track_send_recv_separately cfg cp
                 then added (added (added (replaced c x (Suc (next_id c))) S)
                         (cp_recv_done_instr cp (next_id c) (Suc (Suc (next_id c)))))
                         (cp_send_done_instr (next_id c) (Suc (next_id c)))
                 else added (added (replaced c x (Suc (next_id c))) S)
                         (CreateUnary (shape cp) kCollectivePermuteDone (next_id c)))"
    by blast
  have "lookup c' (start pair) = Some S"
    using S(1,5) p(2) wf by (simp add: lookup_added2 lookup_added3)
  then show ?thesis using S(2,3,4) by auto
qed

text \<open>
  Claim C10 on a single-operand collective permute that carries the attribute: its start
  does not.
\<close>

theorem disjoint_attr_only_in_four_operand_branch_witness:
  "wf_computation ex_permute1 \<and>
   lookup ex_permute1 1 = Some ((ex_instr kCollectivePermute [0]) \<lparr> disjoint_read_write_regions := True \<rparr>) \<and>
   fst (rewrite_collective accept_all no_failure ex_permute1 1) = Inr (Some \<lparr> start = 2, done_instr = 3 \<rparr>) \<and>
   (\<exists>S. lookup (snd (rewrite_collective accept_all no_failure ex_permute1 1)) 2 = Some S \<and>
        opcode S = kCollectivePermuteStart \<and> \<not> disjoint_read_write_regions S)"
proof -
  let ?cp = "(ex_instr kCollectivePermute [0]) \<lparr> disjoint_read_write_regions := True \<rparr>"
  let ?c' = "snd (rewrite_collective accept_all no_failure ex_permute1 1)"
  have r: "rewrite_collective accept_all no_failure ex_permute1 1 =
      (Inr (Some \<lparr> start = 2, done_instr = 3 \<rparr>), ?c')"
    using ex_permute1_step by (metis prod.collapse)
  have cp: "opcode ?cp = kCollectivePermute" "operand_count ?cp = 1"
    by (simp_all add: ex_instr_def new_instruction_def operand_count_def)
  from disjoint_attr_only_in_four_operand_branch [OF ex_permute1_wf ex_permute1_lookup cp(1) r] cp(2)
  have ex: "\<exists>S. lookup ?c' 2 = Some S \<and> opcode S = kCollectivePermuteStart \<and> \<not> disjoint_read_write_regions S"
    by auto
  show ?thesis
    by (intro conjI) (rule ex_permute1_wf ex_permute1_lookup ex_permute1_step ex)+
qed

end
